theory Spec2Isabelle
  imports Main
begin

section \<open>The lexer of lexer\_taller.py and lexer,0,0.py\<close>

text \<open>
  Both source files hold the same \<open>Lexer\<close>: the same \<open>master_pattern\<close>, the same
  \<open>tokenize\<close> loop and the same \<open>_advance_position\<close>. The only difference is that
  lexer,0,0.py checks \<open>kind is None\<close> after a successful match; every alternative of
  the pattern is a named group, so \<open>lastgroup\<close> is never \<open>None\<close> there and the check
  never fires. One model serves both files.

  A Python \<open>str\<close> is a sequence of Unicode code points and \<open>len\<close> counts code points,
  so a text is a list of code points (\<open>nat\<close>). \<open>str\<close> turns an Isabelle string literal
  into such a list. Python's integers are unbounded: \<open>line\<close> and \<open>col\<close> are \<open>int\<close>.
\<close>

type_synonym pystr = "nat list"

definition str :: "string \<Rightarrow> pystr" where
  "str s = map of_char s"

subsection \<open>Token\<close>

text \<open>The frozen dataclass \<open>Token\<close>: \<open>type: str\<close>, \<open>lexeme: str\<close>, \<open>line: int\<close>, \<open>col: int\<close>.\<close>

record Token =
  type :: string
  lexeme :: pystr
  line :: int
  col :: int

subsection \<open>The character classes of \<open>master_pattern\<close>\<close>

text \<open>
  \<open>\s\<close> in a \<open>str\<close> pattern of Python's \<open>re\<close> is the Unicode whitespace class
  (\<open>Py_UNICODE_ISSPACE\<close>): U+0009..U+000D, U+001C..U+0020, U+0085, U+00A0, U+1680,
  U+2000..U+200A, U+2028, U+2029, U+202F, U+205F and U+3000. The classes \<open>[a-z]\<close>,
  \<open>[0-9]\<close>, \<open>[+\-*/=]\<close> and \<open>[();]\<close> are the code points they list.
\<close>

definition is_space :: "nat \<Rightarrow> bool" where
  "is_space c \<longleftrightarrow>
     (0x09 \<le> c \<and> c \<le> 0x0D) \<or> (0x1C \<le> c \<and> c \<le> 0x20) \<or> c = 0x85 \<or> c = 0xA0 \<or>
     c = 0x1680 \<or> (0x2000 \<le> c \<and> c \<le> 0x200A) \<or> c = 0x2028 \<or> c = 0x2029 \<or>
     c = 0x202F \<or> c = 0x205F \<or> c = 0x3000"

definition is_lower :: "nat \<Rightarrow> bool" where
  "is_lower c \<longleftrightarrow> of_char CHR ''a'' \<le> c \<and> c \<le> of_char CHR ''z''"

definition is_digit :: "nat \<Rightarrow> bool" where
  "is_digit c \<longleftrightarrow> of_char CHR ''0'' \<le> c \<and> c \<le> of_char CHR ''9''"

definition is_operator :: "nat \<Rightarrow> bool" where
  "is_operator c \<longleftrightarrow> c \<in> set (str ''+-*/='')"

definition is_delimiter :: "nat \<Rightarrow> bool" where
  "is_delimiter c \<longleftrightarrow> c \<in> set (str ''();'')"

subsection \<open>Group names and token types\<close>

text \<open>
  The names of the groups of \<open>master_pattern\<close> (the values of \<open>match.lastgroup\<close>) and the
  values of \<open>Token.type\<close> are Python strings; each is named once here.
\<close>

definition WHITESPACE :: string where "WHITESPACE = ''WHITESPACE''"
definition IDENTIFIER :: string where "IDENTIFIER = ''IDENTIFIER''"
definition INTEGER :: string where "INTEGER = ''INTEGER''"
definition OPERATOR :: string where "OPERATOR = ''OPERATOR''"
definition DELIMITER :: string where "DELIMITER = ''DELIMITER''"
definition KEYWORD :: string where "KEYWORD = ''KEYWORD''"

subsection \<open>\<open>master_pattern.match(text, pos)\<close>\<close>

text \<open>
  The pattern is an ordered alternation of five named groups, matched anchored at
  \<open>pos\<close>. Each of the first three is a greedy \<open>+\<close> over one character class with nothing
  after it, so it matches the longest run of that class at \<open>pos\<close>, and fails when that
  run is empty; the last two match one character. The result is \<open>None\<close> when no
  alternative matches, otherwise \<open>(lastgroup, group(lastgroup))\<close>; \<open>match.end()\<close> is
  \<open>pos + len(lexeme)\<close>.
\<close>

definition master_pattern_match :: "pystr \<Rightarrow> nat \<Rightarrow> (string \<times> pystr) option" where
  "master_pattern_match inp pos =
     (let s = drop pos inp in
      if takeWhile is_space s \<noteq> [] then Some (WHITESPACE, takeWhile is_space s)
      else if takeWhile is_lower s \<noteq> [] then Some (IDENTIFIER, takeWhile is_lower s)
      else if takeWhile is_digit s \<noteq> [] then Some (INTEGER, takeWhile is_digit s)
      else (case s of
              [] \<Rightarrow> None
            | c # _ \<Rightarrow>
                if is_operator c then Some (OPERATOR, [c])
                else if is_delimiter c then Some (DELIMITER, [c])
                else None))"

subsection \<open>\<open>Lexer._advance_position\<close>\<close>

text \<open>\<open>str.rfind\<close>: the highest index of the character, or \<open>-1\<close> when it does not occur.\<close>

fun rfind :: "pystr \<Rightarrow> nat \<Rightarrow> int" where
  "rfind [] c = - 1"
| "rfind (x # xs) c =
     (if 0 \<le> rfind xs c then rfind xs c + 1 else if x = c then 0 else - 1)"

definition newline :: nat where
  "newline = of_char CHR ''\<newline>''"

definition advance_position :: "pystr \<Rightarrow> int \<Rightarrow> int \<Rightarrow> int \<times> int" where
  "advance_position lx ln cl =
     (let newlines = count_list lx newline in
      if newlines = 0 then (ln, cl + int (length lx))
      else
        let last_newline_index = rfind lx newline;
            chars_after_last_newline = int (length lx) - last_newline_index - 1
        in (ln + int newlines, 1 + chars_after_last_newline))"

subsection \<open>\<open>Lexer.tokenize\<close>\<close>

text \<open>\<open>self.keywords\<close>, the reserved words.\<close>

definition lexer_keywords :: "pystr set" where
  "lexer_keywords = {str ''if'', str ''else'', str ''while''}"

text \<open>
  \<open>ValueError\<close> carries \<open>bad_char\<close>, \<open>line\<close> and \<open>col\<close>, the three values the message is
  formatted from; \<open>RuntimeError\<close> carries the unexpected \<open>kind\<close>.
\<close>

datatype error = ValueError nat int int | RuntimeError string

text \<open>
  The \<open>if kind == "IDENTIFIER": ... elif ... else: raise RuntimeError\<close> chain of the
  loop body, which computes \<open>token_type\<close> from \<open>kind\<close> and \<open>lexeme\<close>.
\<close>

definition token_type :: "string \<Rightarrow> pystr \<Rightarrow> error + string" where
  "token_type kind lx =
     (if kind = IDENTIFIER then
        Inr (if lx \<in> lexer_keywords then KEYWORD else IDENTIFIER)
      else if kind = INTEGER then Inr INTEGER
      else if kind = OPERATOR then Inr OPERATOR
      else if kind = DELIMITER then Inr DELIMITER
      else Inl (RuntimeError kind))"

text \<open>
  The \<open>while pos < len(text)\<close> loop, with its local variables \<open>pos\<close>, \<open>line\<close>, \<open>col\<close> and
  \<open>tokens\<close> as arguments (\<open>inp\<close> stands for the parameter \<open>text\<close>; \<open>ln\<close>, \<open>cl\<close> and
  \<open>lx\<close> stand for \<open>line\<close>, \<open>col\<close> and \<open>lexeme\<close>, which are the selectors of \<open>Token\<close>
  here). \<open>start_line\<close> and \<open>start_col\<close> are the values
  of \<open>line\<close> and \<open>col\<close> before \<open>_advance_position\<close>.
\<close>

function tokenize_loop :: "pystr \<Rightarrow> nat \<Rightarrow> int \<Rightarrow> int \<Rightarrow> Token list \<Rightarrow> error + Token list" where
  "tokenize_loop inp pos ln cl tokens =
     (if pos < length inp then
        (case master_pattern_match inp pos of
           None \<Rightarrow> Inl (ValueError (inp ! pos) ln cl)
         | Some (kind, lx) \<Rightarrow>
             (let start_line = ln; start_col = cl;
                  ln' = fst (advance_position lx ln cl);
                  cl' = snd (advance_position lx ln cl)
              in if kind = WHITESPACE then
                   tokenize_loop inp (pos + length lx) ln' cl' tokens
                 else
                   (case token_type kind lx of
                      Inl e \<Rightarrow> Inl e
                    | Inr ty \<Rightarrow>
                        tokenize_loop inp (pos + length lx) ln' cl'
                          (tokens @ [\<lparr>type = ty, lexeme = lx,
                                      line = start_line, col = start_col\<rparr>]))))
      else Inr tokens)"
  by pat_completeness auto
termination
  by (relation "measure (\<lambda>(inp, pos, ln, cl, tokens). length inp - pos)")
     (auto simp: master_pattern_match_def Let_def length_greater_0_conv [symmetric]
           simp del: length_greater_0_conv split: if_splits list.splits)

declare tokenize_loop.simps [simp del]

text \<open>\<open>tokenize\<close>: the loop from \<open>pos = 0\<close>, \<open>line = 1\<close>, \<open>col = 1\<close> and no tokens.\<close>

definition tokenize :: "pystr \<Rightarrow> error + Token list" where
  "tokenize inp = tokenize_loop inp 0 1 1 []"

subsection \<open>The states of the loop\<close>

text \<open>
  \<open>reaches inp pos ln cl tokens\<close>: the loop of \<open>tokenize inp\<close> arrives at its head with
  these values of \<open>pos\<close>, \<open>line\<close>, \<open>col\<close> and \<open>tokens\<close>. One rule for the initial
  values, one for an iteration that matches \<open>WHITESPACE\<close>, one for an iteration that
  appends a token.
\<close>

inductive reaches :: "pystr \<Rightarrow> nat \<Rightarrow> int \<Rightarrow> int \<Rightarrow> Token list \<Rightarrow> bool"
  for inp :: pystr where
  start: "reaches inp 0 1 1 []"
| skip: "reaches inp pos ln cl tokens \<Longrightarrow> pos < length inp \<Longrightarrow>
         master_pattern_match inp pos = Some (WHITESPACE, lx) \<Longrightarrow>
         reaches inp (pos + length lx) (fst (advance_position lx ln cl))
           (snd (advance_position lx ln cl)) tokens"
| emit: "reaches inp pos ln cl tokens \<Longrightarrow> pos < length inp \<Longrightarrow>
         master_pattern_match inp pos = Some (kind, lx) \<Longrightarrow> kind \<noteq> WHITESPACE \<Longrightarrow>
         token_type kind lx = Inr ty \<Longrightarrow>
         reaches inp (pos + length lx) (fst (advance_position lx ln cl))
           (snd (advance_position lx ln cl))
           (tokens @ [\<lparr>type = ty, lexeme = lx, line = ln, col = cl\<rparr>])"

text \<open>
  \<open>matched_spans inp pos\<close>: the pairs \<open>(kind, lexeme)\<close> of the successive iterations of
  the loop from \<open>pos\<close> on, in scan order, whitespace included, up to the end of the
  text or the first position where nothing matches.
\<close>

function matched_spans :: "pystr \<Rightarrow> nat \<Rightarrow> (string \<times> pystr) list" where
  "matched_spans inp pos =
     (if pos < length inp then
        (case master_pattern_match inp pos of
           None \<Rightarrow> []
         | Some (kind, lx) \<Rightarrow> (kind, lx) # matched_spans inp (pos + length lx))
      else [])"
  by pat_completeness auto
termination
  by (relation "measure (\<lambda>(inp, pos). length inp - pos)")
     (auto simp: master_pattern_match_def Let_def length_greater_0_conv [symmetric]
           simp del: length_greater_0_conv split: if_splits list.splits)

declare matched_spans.simps [simp del]

section \<open>Facts about the pattern\<close>

lemmas char_class_defs =
  is_space_def is_lower_def is_digit_def is_operator_def is_delimiter_def str_def

lemmas name_defs =
  WHITESPACE_def IDENTIFIER_def INTEGER_def OPERATOR_def DELIMITER_def KEYWORD_def

lemma names_distinct [simp]:
  "WHITESPACE \<noteq> IDENTIFIER" "WHITESPACE \<noteq> INTEGER" "WHITESPACE \<noteq> OPERATOR"
  "WHITESPACE \<noteq> DELIMITER" "WHITESPACE \<noteq> KEYWORD"
  "IDENTIFIER \<noteq> WHITESPACE" "IDENTIFIER \<noteq> INTEGER" "IDENTIFIER \<noteq> OPERATOR"
  "IDENTIFIER \<noteq> DELIMITER" "IDENTIFIER \<noteq> KEYWORD"
  "INTEGER \<noteq> WHITESPACE" "INTEGER \<noteq> IDENTIFIER" "INTEGER \<noteq> OPERATOR"
  "INTEGER \<noteq> DELIMITER" "INTEGER \<noteq> KEYWORD"
  "OPERATOR \<noteq> WHITESPACE" "OPERATOR \<noteq> IDENTIFIER" "OPERATOR \<noteq> INTEGER"
  "OPERATOR \<noteq> DELIMITER" "OPERATOR \<noteq> KEYWORD"
  "DELIMITER \<noteq> WHITESPACE" "DELIMITER \<noteq> IDENTIFIER" "DELIMITER \<noteq> INTEGER"
  "DELIMITER \<noteq> OPERATOR" "DELIMITER \<noteq> KEYWORD"
  "KEYWORD \<noteq> WHITESPACE" "KEYWORD \<noteq> IDENTIFIER" "KEYWORD \<noteq> INTEGER"
  "KEYWORD \<noteq> OPERATOR" "KEYWORD \<noteq> DELIMITER"
  by (simp_all add: name_defs)

lemma space_not_token_char:
  "is_space c \<Longrightarrow> \<not> is_lower c \<and> \<not> is_digit c \<and> \<not> is_operator c \<and> \<not> is_delimiter c"
  by (auto simp: char_class_defs)

text \<open>The first character at the cursor decides which alternative matches.\<close>

lemma master_pattern_match_first:
  "master_pattern_match inp pos =
     (case drop pos inp of
        [] \<Rightarrow> None
      | c # r \<Rightarrow>
          if is_space c then Some (WHITESPACE, c # takeWhile is_space r)
          else if is_lower c then Some (IDENTIFIER, c # takeWhile is_lower r)
          else if is_digit c then Some (INTEGER, c # takeWhile is_digit r)
          else if is_operator c then Some (OPERATOR, [c])
          else if is_delimiter c then Some (DELIMITER, [c])
          else None)"
  by (simp add: master_pattern_match_def Let_def split: list.split)

lemma master_pattern_match_nonempty:
  "master_pattern_match inp pos = Some (kind, lx) \<Longrightarrow> lx \<noteq> []"
  by (auto simp: master_pattern_match_first split: list.splits if_splits)

lemma master_pattern_match_prefix:
  "master_pattern_match inp pos = Some (kind, lx) \<Longrightarrow> \<exists>r. drop pos inp = lx @ r"
proof -
  have tw: "\<And>P c r. \<exists>r'. c # r = (c # takeWhile P r) @ r'"
    by (metis append_Cons takeWhile_dropWhile_id)
  assume "master_pattern_match inp pos = Some (kind, lx)"
  then show ?thesis
    using tw by (auto simp: master_pattern_match_first split: list.splits if_splits)
qed

lemma master_pattern_match_end:
  assumes "master_pattern_match inp pos = Some (kind, lx)"
  shows "pos + length lx \<le> length inp"
proof -
  obtain r where "drop pos inp = lx @ r"
    using master_pattern_match_prefix [OF assms] by blast
  then have "length (drop pos inp) = length lx + length r" by simp
  moreover have "lx \<noteq> []" using master_pattern_match_nonempty [OF assms] .
  ultimately show ?thesis by (cases lx) auto
qed

lemma master_pattern_match_take:
  assumes "master_pattern_match inp pos = Some (kind, lx)"
  shows "take (pos + length lx) inp = take pos inp @ lx"
proof -
  obtain r where r: "drop pos inp = lx @ r"
    using master_pattern_match_prefix [OF assms] by blast
  have "take (pos + length lx) inp = take pos inp @ take (length lx) (drop pos inp)"
    by (simp add: take_add)
  with r show ?thesis by simp
qed

lemma master_pattern_match_kind:
  "master_pattern_match inp pos = Some (kind, lx) \<Longrightarrow>
   kind = WHITESPACE \<or> kind = IDENTIFIER \<or> kind = INTEGER \<or>
   kind = OPERATOR \<or> kind = DELIMITER"
  unfolding master_pattern_match_first
  by (cases "drop pos inp") (auto split: if_splits)

lemma token_type_total:
  "master_pattern_match inp pos = Some (kind, lx) \<Longrightarrow> kind \<noteq> WHITESPACE \<Longrightarrow>
   \<exists>ty. token_type kind lx = Inr ty"
proof -
  assume "master_pattern_match inp pos = Some (kind, lx)" and "kind \<noteq> WHITESPACE"
  then have "kind = IDENTIFIER \<or> kind = INTEGER \<or> kind = OPERATOR \<or>
    kind = DELIMITER"
    using master_pattern_match_kind by blast
  then show ?thesis
    unfolding token_type_def by (elim disjE) simp_all
qed

section \<open>One iteration of the loop\<close>

lemma tokenize_loop_end:
  "\<not> pos < length inp \<Longrightarrow> tokenize_loop inp pos ln cl tokens = Inr tokens"
  by (simp add: tokenize_loop.simps)

lemma tokenize_loop_error:
  "pos < length inp \<Longrightarrow> master_pattern_match inp pos = None \<Longrightarrow>
   tokenize_loop inp pos ln cl tokens = Inl (ValueError (inp ! pos) ln cl)"
  by (simp add: tokenize_loop.simps)

lemma tokenize_loop_skip:
  "pos < length inp \<Longrightarrow> master_pattern_match inp pos = Some (WHITESPACE, lx) \<Longrightarrow>
   tokenize_loop inp pos ln cl tokens =
   tokenize_loop inp (pos + length lx) (fst (advance_position lx ln cl))
     (snd (advance_position lx ln cl)) tokens"
  by (subst tokenize_loop.simps) (simp add: Let_def)

lemma tokenize_loop_emit:
  "pos < length inp \<Longrightarrow> master_pattern_match inp pos = Some (kind, lx) \<Longrightarrow>
   kind \<noteq> WHITESPACE \<Longrightarrow> token_type kind lx = Inr ty \<Longrightarrow>
   tokenize_loop inp pos ln cl tokens =
   tokenize_loop inp (pos + length lx) (fst (advance_position lx ln cl))
     (snd (advance_position lx ln cl))
     (tokens @ [\<lparr>type = ty, lexeme = lx, line = ln, col = cl\<rparr>])"
  by (subst tokenize_loop.simps) (simp add: Let_def)

text \<open>Induction along the iterations of the loop.\<close>

lemma tokenize_loop_cases_induct [case_names at_end error skip emit]:
  assumes "\<And>pos ln cl tokens. \<not> pos < length inp \<Longrightarrow> P pos ln cl tokens"
    and "\<And>pos ln cl tokens. pos < length inp \<Longrightarrow> master_pattern_match inp pos = None \<Longrightarrow>
           P pos ln cl tokens"
    and "\<And>pos ln cl tokens lx. pos < length inp \<Longrightarrow>
           master_pattern_match inp pos = Some (WHITESPACE, lx) \<Longrightarrow>
           P (pos + length lx) (fst (advance_position lx ln cl))
             (snd (advance_position lx ln cl)) tokens \<Longrightarrow>
           P pos ln cl tokens"
    and "\<And>pos ln cl tokens kind lx ty. pos < length inp \<Longrightarrow>
           master_pattern_match inp pos = Some (kind, lx) \<Longrightarrow> kind \<noteq> WHITESPACE \<Longrightarrow>
           token_type kind lx = Inr ty \<Longrightarrow>
           P (pos + length lx) (fst (advance_position lx ln cl))
             (snd (advance_position lx ln cl))
             (tokens @ [\<lparr>type = ty, lexeme = lx, line = ln, col = cl\<rparr>]) \<Longrightarrow>
           P pos ln cl tokens"
  shows "P pos ln cl tokens"
proof -
  have "inp' = inp \<Longrightarrow> P pos ln cl tokens" for inp'
  proof (induction inp' pos ln cl tokens rule: tokenize_loop.induct)
    case (1 inp' pos ln cl tokens)
    show ?case
    proof (cases "pos < length inp")
      case False
      then show ?thesis by (rule assms(1))
    next
      case less: True
      then have less': "pos < length inp'" using "1.prems" by simp
      show ?thesis
      proof (cases "master_pattern_match inp pos")
        case None
        with less show ?thesis by (rule assms(2))
      next
        case (Some m)
        obtain kind lx where m: "master_pattern_match inp pos = Some (kind, lx)"
          using Some by (cases m) simp
        then have m': "master_pattern_match inp' pos = Some (kind, lx)"
          using "1.prems" by simp
        show ?thesis
        proof (cases "kind = WHITESPACE")
          case True
          have "P (pos + length lx) (fst (advance_position lx ln cl))
                  (snd (advance_position lx ln cl)) tokens"
            by (rule "1.IH"(1) [OF less' m' refl refl refl refl refl True "1.prems"])
          with less m True show ?thesis
            using assms(3) [of pos lx ln cl tokens] by simp
        next
          case False
          obtain ty where ty: "token_type kind lx = Inr ty"
            using token_type_total [OF m False] by blast
          have "P (pos + length lx) (fst (advance_position lx ln cl))
                  (snd (advance_position lx ln cl))
                  (tokens @ [\<lparr>type = ty, lexeme = lx, line = ln, col = cl\<rparr>])"
            by (rule "1.IH"(2) [OF less' m' refl refl refl refl refl False ty "1.prems"])
          then show ?thesis
            by (rule assms(4) [OF less m False ty])
        qed
      qed
    qed
  qed
  then show ?thesis by simp
qed

section \<open>The loop and its states\<close>

lemma reaches_pos_le: "reaches inp pos ln cl tokens \<Longrightarrow> pos \<le> length inp"
  by (induction rule: reaches.induct) (auto dest: master_pattern_match_end)

lemma reaches_tokenize_loop:
  "reaches inp pos ln cl tokens \<Longrightarrow> tokenize inp = tokenize_loop inp pos ln cl tokens"
proof (induction rule: reaches.induct)
  case start
  show ?case by (simp add: tokenize_def)
next
  case (skip pos ln cl tokens lx)
  then show ?case by (simp add: tokenize_loop_skip)
next
  case (emit pos ln cl tokens kind lx ty)
  then show ?case by (simp add: tokenize_loop_emit)
qed

text \<open>From any state of the loop, the run ends in a state of the loop: at the end of
  the text with the returned tokens, or at a position where nothing matches.\<close>

lemma tokenize_loop_outcome:
  "reaches inp pos ln cl tokens \<Longrightarrow>
   (case tokenize_loop inp pos ln cl tokens of
      Inr res \<Rightarrow> \<exists>ln' cl'. reaches inp (length inp) ln' cl' res
    | Inl e \<Rightarrow> \<exists>pos' ln' cl' tokens'. reaches inp pos' ln' cl' tokens' \<and>
        pos' < length inp \<and> master_pattern_match inp pos' = None \<and>
        e = ValueError (inp ! pos') ln' cl')"
proof (induction pos ln cl tokens rule: tokenize_loop_cases_induct [where inp = inp])
  case (at_end pos ln cl tokens)
  then have "pos = length inp" using reaches_pos_le by fastforce
  with at_end show ?case by (auto simp: tokenize_loop_end)
next
  case (error pos ln cl tokens)
  then show ?case by (auto simp: tokenize_loop_error)
next
  case (skip pos ln cl tokens lx)
  from skip.prems skip.hyps have "reaches inp (pos + length lx)
    (fst (advance_position lx ln cl)) (snd (advance_position lx ln cl)) tokens"
    by (rule reaches.skip)
  then show ?case using skip.IH skip.hyps by (simp add: tokenize_loop_skip)
next
  case (emit pos ln cl tokens kind lx ty)
  from emit.prems emit.hyps have "reaches inp (pos + length lx)
    (fst (advance_position lx ln cl)) (snd (advance_position lx ln cl))
    (tokens @ [\<lparr>type = ty, lexeme = lx, line = ln, col = cl\<rparr>])"
    by (rule reaches.emit)
  then show ?case using emit.IH emit.hyps by (simp add: tokenize_loop_emit)
qed

lemma tokenize_success_reaches:
  assumes "tokenize inp = Inr res"
  shows "\<exists>ln cl. reaches inp (length inp) ln cl res"
  using tokenize_loop_outcome [OF reaches.start, of inp] assms
  by (simp add: tokenize_def)

lemma tokenize_error_reaches:
  assumes "tokenize inp = Inl e"
  shows "\<exists>pos ln cl tokens. reaches inp pos ln cl tokens \<and> pos < length inp \<and>
     master_pattern_match inp pos = None \<and> e = ValueError (inp ! pos) ln cl"
  using tokenize_loop_outcome [OF reaches.start, of inp] assms
  by (simp add: tokenize_def)

lemma reaches_error:
  assumes "reaches inp pos ln cl tokens" and "pos < length inp"
    and "master_pattern_match inp pos = None"
  shows "tokenize inp = Inl (ValueError (inp ! pos) ln cl)"
  using assms by (simp add: reaches_tokenize_loop tokenize_loop_error)

section \<open>Position arithmetic\<close>

lemma rfind_nonneg_iff: "0 \<le> rfind xs c \<longleftrightarrow> c \<in> set xs"
  by (induction xs) auto

lemma count_list_zero_iff: "count_list xs c = 0 \<longleftrightarrow> c \<notin> set xs"
  by (induction xs) auto

lemma rfind_after_last:
  "c \<in> set xs \<Longrightarrow>
   int (length xs) - rfind xs c - 1 = int (length (takeWhile (\<lambda>x. x \<noteq> c) (rev xs)))"
proof (induction xs)
  case Nil
  then show ?case by simp
next
  case (Cons x xs)
  show ?case
  proof (cases "c \<in> set xs")
    case True
    then have "takeWhile (\<lambda>x. x \<noteq> c) (rev xs @ [x]) = takeWhile (\<lambda>x. x \<noteq> c) (rev xs)"
      by (intro takeWhile_append1 [of c]) auto
    with True Cons.IH show ?thesis by (simp add: rfind_nonneg_iff)
  next
    case False
    with Cons.prems have "x = c" by simp
    from False have "takeWhile (\<lambda>x. x \<noteq> c) (rev xs @ [x]) = rev xs @ takeWhile (\<lambda>x. x \<noteq> c) [x]"
      by (intro takeWhile_append2) auto
    with False \<open>x = c\<close> show ?thesis by (simp add: rfind_nonneg_iff)
  qed
qed

lemma advance_position_no_newline:
  "count_list lx newline = 0 \<Longrightarrow> advance_position lx ln cl = (ln, cl + int (length lx))"
  by (simp add: advance_position_def)

lemma advance_position_newlines:
  assumes "1 \<le> count_list lx newline"
  shows "advance_position lx ln cl =
    (ln + int (count_list lx newline),
     1 + int (length (takeWhile (\<lambda>c. c \<noteq> newline) (rev lx))))"
proof -
  from assms have "newline \<in> set lx"
    using count_list_zero_iff [of lx newline] by auto
  then show ?thesis
    using assms rfind_after_last [of newline lx] by (simp add: advance_position_def Let_def)
qed

lemma advance_position_increases:
  assumes "lx \<noteq> []"
  shows "ln < fst (advance_position lx ln cl) \<or>
    (ln = fst (advance_position lx ln cl) \<and> cl < snd (advance_position lx ln cl))"
proof (cases "count_list lx newline = 0")
  case True
  with assms show ?thesis by (simp add: advance_position_no_newline)
next
  case False
  then have "1 \<le> count_list lx newline" by simp
  then show ?thesis by (simp add: advance_position_newlines)
qed

lemma advance_position_one_based:
  assumes "1 \<le> ln" and "1 \<le> cl"
  shows "1 \<le> fst (advance_position lx ln cl) \<and> 1 \<le> snd (advance_position lx ln cl)"
proof (cases "count_list lx newline = 0")
  case True
  with assms show ?thesis by (simp add: advance_position_no_newline)
next
  case False
  then have "1 \<le> count_list lx newline" by simp
  with assms show ?thesis by (simp add: advance_position_newlines)
qed

lemma reaches_one_based: "reaches inp pos ln cl tokens \<Longrightarrow> 1 \<le> ln \<and> 1 \<le> cl"
  by (induction rule: reaches.induct) (simp_all add: advance_position_one_based)

section \<open>Runs of lowercase letters\<close>

lemma lower_not_space: "is_lower c \<Longrightarrow> \<not> is_space c"
  using space_not_token_char by blast

lemma master_pattern_match_lower:
  assumes "pos < length inp" and "is_lower (inp ! pos)"
  shows "master_pattern_match inp pos = Some (IDENTIFIER, takeWhile is_lower (drop pos inp))"
proof -
  from assms(1) obtain r where r: "drop pos inp = inp ! pos # r"
    by (metis Cons_nth_drop_Suc)
  with assms(2) show ?thesis
    by (simp add: master_pattern_match_first lower_not_space)
qed

lemma tokenize_lower_run:
  assumes "lx \<noteq> []" and "\<forall>c\<in>set lx. is_lower c"
  shows "tokenize lx = Inr [\<lparr>type = (if lx \<in> lexer_keywords then KEYWORD else IDENTIFIER),
    lexeme = lx, line = 1, col = 1\<rparr>]"
proof -
  from assms(1) have pos: "0 < length lx" by simp
  moreover from assms have "is_lower (lx ! 0)" by (cases lx) auto
  ultimately have "master_pattern_match lx 0 = Some (IDENTIFIER, takeWhile is_lower (drop 0 lx))"
    by (rule master_pattern_match_lower)
  moreover from assms(2) have "takeWhile is_lower lx = lx"
    by (simp add: takeWhile_eq_all_conv)
  ultimately have m: "master_pattern_match lx 0 = Some (IDENTIFIER, lx)" by simp
  have ty: "token_type IDENTIFIER lx =
      Inr (if lx \<in> lexer_keywords then KEYWORD else IDENTIFIER)"
    by (simp add: token_type_def)
  have "tokenize lx = tokenize_loop lx (0 + length lx) (fst (advance_position lx 1 1))
      (snd (advance_position lx 1 1))
      ([] @ [\<lparr>type = (if lx \<in> lexer_keywords then KEYWORD else IDENTIFIER),
               lexeme = lx, line = 1, col = 1\<rparr>])"
    unfolding tokenize_def
    by (rule tokenize_loop_emit [OF pos m _ ty]) simp
  then show ?thesis by (simp add: tokenize_loop_end)
qed

lemma keywords_lower: "kw \<in> lexer_keywords \<Longrightarrow> kw \<noteq> [] \<and> (\<forall>c\<in>set kw. is_lower c)"
  by (auto simp: lexer_keywords_def str_def is_lower_def)

section \<open>Invariants of the loop\<close>

lemma reaches_sorted:
  "reaches inp pos ln cl tokens \<Longrightarrow>
   sorted_wrt (\<lambda>a b. line a < line b \<or> (line a = line b \<and> col a < col b)) tokens \<and>
   (\<forall>t\<in>set tokens. line t < ln \<or> (line t = ln \<and> col t < cl))"
proof (induction rule: reaches.induct)
  case start
  show ?case by simp
next
  case (skip pos ln cl tokens lx)
  from skip.hyps have "lx \<noteq> []" by (auto dest: master_pattern_match_nonempty)
  from advance_position_increases [OF this, of ln cl] skip.IH show ?case
    by auto
next
  case (emit pos ln cl tokens kind lx ty)
  from emit.hyps have "lx \<noteq> []" by (auto dest: master_pattern_match_nonempty)
  from advance_position_increases [OF this, of ln cl] emit.IH show ?case
    by (auto simp: sorted_wrt_append)
qed

lemma match_conforms:
  assumes "master_pattern_match inp pos = Some (kind, lx)"
  shows "lx \<noteq> [] \<and>
    (kind = WHITESPACE \<and> (\<forall>c\<in>set lx. is_space c) \<or>
     kind = IDENTIFIER \<and> (\<forall>c\<in>set lx. is_lower c) \<or>
     kind = INTEGER \<and> (\<forall>c\<in>set lx. is_digit c) \<or>
     kind = OPERATOR \<and> (\<exists>c. lx = [c] \<and> is_operator c) \<or>
     kind = DELIMITER \<and> (\<exists>c. lx = [c] \<and> is_delimiter c))"
proof (cases "drop pos inp")
  case Nil
  with assms show ?thesis by (simp add: master_pattern_match_first)
next
  case (Cons c r)
  have tw: "\<And>P. P c \<Longrightarrow> \<forall>x\<in>set (c # takeWhile P r). P x"
    by (auto dest: set_takeWhileD)
  from assms Cons show ?thesis
    unfolding master_pattern_match_first
    by (simp split: if_splits) (use tw in blast)+
qed

lemma emitted_token_conforms:
  assumes "master_pattern_match inp pos = Some (kind, lx)" and "kind \<noteq> WHITESPACE"
    and "token_type kind lx = Inr ty"
  shows "lx \<noteq> [] \<and>
    (ty = KEYWORD \<and> lx \<in> lexer_keywords \<or>
     ty = IDENTIFIER \<and> (\<forall>c\<in>set lx. is_lower c) \<and> lx \<notin> lexer_keywords \<or>
     ty = INTEGER \<and> (\<forall>c\<in>set lx. is_digit c) \<or>
     ty = OPERATOR \<and> (\<exists>c. lx = [c] \<and> is_operator c) \<or>
     ty = DELIMITER \<and> (\<exists>c. lx = [c] \<and> is_delimiter c))"
proof -
  from match_conforms [OF assms(1)] assms(2)
  have ne: "lx \<noteq> []" and k:
    "kind = IDENTIFIER \<and> (\<forall>c\<in>set lx. is_lower c) \<or>
     kind = INTEGER \<and> (\<forall>c\<in>set lx. is_digit c) \<or>
     kind = OPERATOR \<and> (\<exists>c. lx = [c] \<and> is_operator c) \<or>
     kind = DELIMITER \<and> (\<exists>c. lx = [c] \<and> is_delimiter c)"
    by simp_all
  from k show ?thesis
  proof (elim disjE conjE)
    assume "kind = IDENTIFIER" and "\<forall>c\<in>set lx. is_lower c"
    with assms(3) ne show ?thesis
      by (cases "lx \<in> lexer_keywords") (simp_all add: token_type_def)
  next
    assume "kind = INTEGER" and "\<forall>c\<in>set lx. is_digit c"
    with assms(3) ne show ?thesis by (simp add: token_type_def)
  next
    assume "kind = OPERATOR" and "\<exists>c. lx = [c] \<and> is_operator c"
    with assms(3) ne show ?thesis by (simp add: token_type_def)
  next
    assume "kind = DELIMITER" and "\<exists>c. lx = [c] \<and> is_delimiter c"
    with assms(3) ne show ?thesis by (simp add: token_type_def)
  qed
qed

lemma reaches_conform:
  "reaches inp pos ln cl tokens \<Longrightarrow> t \<in> set tokens \<Longrightarrow>
   lexeme t \<noteq> [] \<and>
    (type t = KEYWORD \<and> lexeme t \<in> lexer_keywords \<or>
     type t = IDENTIFIER \<and> (\<forall>c\<in>set (lexeme t). is_lower c) \<and> lexeme t \<notin> lexer_keywords \<or>
     type t = INTEGER \<and> (\<forall>c\<in>set (lexeme t). is_digit c) \<or>
     type t = OPERATOR \<and> (\<exists>c. lexeme t = [c] \<and> is_operator c) \<or>
     type t = DELIMITER \<and> (\<exists>c. lexeme t = [c] \<and> is_delimiter c))"
proof (induction rule: reaches.induct)
  case start
  then show ?case by simp
next
  case (skip pos ln cl tokens lx)
  then show ?case by simp
next
  case (emit pos ln cl tokens kind lx ty)
  show ?case
  proof (cases "t \<in> set tokens")
    case True
    then show ?thesis by (rule emit.IH)
  next
    case False
    with emit.prems have "t = \<lparr>type = ty, lexeme = lx, line = ln, col = cl\<rparr>" by simp
    with emitted_token_conforms [OF emit.hyps(3,4,5)] show ?thesis by simp
  qed
qed

section \<open>The matched spans\<close>

lemma matched_spans_step:
  "pos < length inp \<Longrightarrow> master_pattern_match inp pos = Some (kind, lx) \<Longrightarrow>
   matched_spans inp pos = (kind, lx) # matched_spans inp (pos + length lx)"
  by (subst matched_spans.simps) simp

lemma matched_spans_end: "\<not> pos < length inp \<Longrightarrow> matched_spans inp pos = []"
  by (subst matched_spans.simps) simp

lemma reaches_spans:
  "reaches inp pos ln cl tokens \<Longrightarrow>
   \<exists>sp. matched_spans inp 0 = sp @ matched_spans inp pos \<and>
     concat (map snd sp) = take pos inp \<and>
     map lexeme tokens = map snd (filter (\<lambda>s. fst s \<noteq> WHITESPACE) sp) \<and>
     (\<forall>s\<in>set sp. fst s = WHITESPACE \<longrightarrow> (\<forall>c\<in>set (snd s). is_space c))"
proof (induction rule: reaches.induct)
  case start
  show ?case by simp
next
  case (skip pos ln cl tokens lx)
  from skip.IH obtain sp where sp: "matched_spans inp 0 = sp @ matched_spans inp pos"
    "concat (map snd sp) = take pos inp"
    "map lexeme tokens = map snd (filter (\<lambda>s. fst s \<noteq> WHITESPACE) sp)"
    "\<forall>s\<in>set sp. fst s = WHITESPACE \<longrightarrow> (\<forall>c\<in>set (snd s). is_space c)"
    by blast
  from match_conforms [OF skip.hyps(3)] have ws: "\<forall>c\<in>set lx. is_space c" by simp
  let ?sp = "sp @ [(WHITESPACE, lx)]"
  have "matched_spans inp 0 = ?sp @ matched_spans inp (pos + length lx)"
    using sp(1) matched_spans_step [OF skip.hyps(2,3)] by simp
  moreover have "concat (map snd ?sp) = take (pos + length lx) inp"
    using sp(2) master_pattern_match_take [OF skip.hyps(3)] by simp
  moreover have "map lexeme tokens = map snd (filter (\<lambda>s. fst s \<noteq> WHITESPACE) ?sp)"
    using sp(3) by simp
  moreover have "\<forall>s\<in>set ?sp. fst s = WHITESPACE \<longrightarrow> (\<forall>c\<in>set (snd s). is_space c)"
    using sp(4) ws by simp
  ultimately show ?case by blast
next
  case (emit pos ln cl tokens kind lx ty)
  from emit.IH obtain sp where sp: "matched_spans inp 0 = sp @ matched_spans inp pos"
    "concat (map snd sp) = take pos inp"
    "map lexeme tokens = map snd (filter (\<lambda>s. fst s \<noteq> WHITESPACE) sp)"
    "\<forall>s\<in>set sp. fst s = WHITESPACE \<longrightarrow> (\<forall>c\<in>set (snd s). is_space c)"
    by blast
  let ?sp = "sp @ [(kind, lx)]"
  have "matched_spans inp 0 = ?sp @ matched_spans inp (pos + length lx)"
    using sp(1) matched_spans_step [OF emit.hyps(2,3)] by simp
  moreover have "concat (map snd ?sp) = take (pos + length lx) inp"
    using sp(2) master_pattern_match_take [OF emit.hyps(3)] by simp
  moreover have "map lexeme (tokens @ [\<lparr>type = ty, lexeme = lx, line = ln, col = cl\<rparr>]) =
      map snd (filter (\<lambda>s. fst s \<noteq> WHITESPACE) ?sp)"
    using sp(3) emit.hyps(4) by simp
  moreover have "\<forall>s\<in>set ?sp. fst s = WHITESPACE \<longrightarrow> (\<forall>c\<in>set (snd s). is_space c)"
    using sp(4) emit.hyps(4) by simp
  ultimately show ?case by blast
qed

section \<open>Whitespace and unmatched characters\<close>

lemma master_pattern_match_whitespace_iff:
  "master_pattern_match inp pos = Some (WHITESPACE, lx) \<longleftrightarrow>
   lx \<noteq> [] \<and> lx = takeWhile is_space (drop pos inp)"
  by (auto simp: master_pattern_match_def Let_def split: list.splits)

lemma master_pattern_match_no_class:
  assumes "pos < length inp" and "\<not> is_space (inp ! pos)" and "\<not> is_lower (inp ! pos)"
    and "\<not> is_digit (inp ! pos)" and "\<not> is_operator (inp ! pos)"
    and "\<not> is_delimiter (inp ! pos)"
  shows "master_pattern_match inp pos = None"
proof -
  from assms(1) obtain r where "drop pos inp = inp ! pos # r"
    by (metis Cons_nth_drop_Suc)
  with assms(2-) show ?thesis by (simp add: master_pattern_match_first)
qed

section \<open>Changing the text after the cursor\<close>

lemma master_pattern_match_append:
  "master_pattern_match (a @ s) (length a + p) = master_pattern_match s p"
  by (simp add: master_pattern_match_def)

lemma tokenize_loop_append:
  "tokenize_loop (a @ s) (length a + p) ln cl acc = tokenize_loop s p ln cl acc"
proof (induction p ln cl acc rule: tokenize_loop_cases_induct [where inp = s])
  case (at_end p ln cl acc)
  then show ?case by (simp add: tokenize_loop_end)
next
  case (error p ln cl acc)
  then show ?case
    by (simp add: tokenize_loop_error master_pattern_match_append nth_append)
next
  case (skip p ln cl acc lx)
  have "tokenize_loop (a @ s) (length a + p) ln cl acc =
      tokenize_loop (a @ s) (length a + p + length lx) (fst (advance_position lx ln cl))
        (snd (advance_position lx ln cl)) acc"
    using skip.hyps by (intro tokenize_loop_skip) (simp_all add: master_pattern_match_append)
  with skip show ?case by (simp add: tokenize_loop_skip add.assoc)
next
  case (emit p ln cl acc kind lx ty)
  have "tokenize_loop (a @ s) (length a + p) ln cl acc =
      tokenize_loop (a @ s) (length a + p + length lx) (fst (advance_position lx ln cl))
        (snd (advance_position lx ln cl))
        (acc @ [\<lparr>type = ty, lexeme = lx, line = ln, col = cl\<rparr>])"
    using emit.hyps by (intro tokenize_loop_emit) (simp_all add: master_pattern_match_append)
  with emit show ?case by (simp add: tokenize_loop_emit add.assoc)
qed

lemma tokenize_loop_append_start:
  "tokenize_loop (a @ s) (length a) ln cl acc = tokenize_loop s 0 ln cl acc"
  using tokenize_loop_append [of a s 0 ln cl acc] by simp

lemma takeWhile_inside:
  assumes "length (takeWhile P (r @ b)) < length r"
  shows "takeWhile P (r @ b') = takeWhile P (r @ b)"
proof (cases "\<forall>x\<in>set r. P x")
  case True
  then have "takeWhile P (r @ b) = r @ takeWhile P b" by (simp add: takeWhile_append2)
  with assms show ?thesis by simp
next
  case False
  then obtain x where "x \<in> set r" "\<not> P x" by blast
  then show ?thesis by (simp add: takeWhile_append1)
qed

lemma takeWhile_upto:
  assumes "length (takeWhile P (r @ b)) = length r" and "b' = [] \<or> \<not> P (hd b')"
  shows "takeWhile P (r @ b') = takeWhile P (r @ b)"
proof -
  have "takeWhile P (r @ b) = take (length (takeWhile P (r @ b))) (r @ b)"
    by (metis append_eq_conv_conj takeWhile_dropWhile_id)
  with assms(1) have eq: "takeWhile P (r @ b) = r" by simp
  then have all: "\<forall>x\<in>set r. P x" by (metis set_takeWhileD)
  from assms(2) have "takeWhile P b' = []" by (cases b') auto
  with all have "takeWhile P (r @ b') = r" by (simp add: takeWhile_append2)
  with eq show ?thesis by simp
qed

lemma master_pattern_match_inside:
  assumes "master_pattern_match (a @ b) pos = Some (kind, lx)"
    and "pos + length lx < length a"
  shows "master_pattern_match (a @ b') pos = Some (kind, lx)"
proof -
  from assms(2) have "pos < length a" by simp
  then obtain c r where cr: "drop pos a = c # r"
    by (metis Cons_nth_drop_Suc)
  then have len: "length a = pos + Suc (length r)"
    by (metis \<open>pos < length a\<close> add_diff_inverse_nat length_Cons length_drop not_less_iff_gr_or_eq
        order_less_imp_not_less)
  have d: "drop pos (a @ b) = c # (r @ b)" "drop pos (a @ b') = c # (r @ b')"
    using cr \<open>pos < length a\<close> by simp_all
  have tw: "\<And>P. lx = c # takeWhile P (r @ b) \<Longrightarrow>
      takeWhile P (r @ b') = takeWhile P (r @ b)"
    using assms(2) len by (intro takeWhile_inside) simp
  from assms(1) show ?thesis
    unfolding master_pattern_match_first d
    by (simp split: if_splits) (use tw in metis)+
qed

lemma master_pattern_match_token_end:
  assumes "master_pattern_match (a @ b) pos = Some (kind, lx)" and "kind \<noteq> WHITESPACE"
    and "pos + length lx = length a" and "b' = [] \<or> is_space (hd b')"
  shows "master_pattern_match (a @ b') pos = Some (kind, lx)"
proof -
  have "lx \<noteq> []" using assms(1) by (rule master_pattern_match_nonempty)
  with assms(3) have "pos < length a" by (cases lx) auto
  then obtain c r where cr: "drop pos a = c # r"
    by (metis Cons_nth_drop_Suc)
  have "length (drop pos a) = length lx" using assms(3) by simp
  with cr have len: "length lx = Suc (length r)" by simp
  have d: "drop pos (a @ b) = c # (r @ b)" "drop pos (a @ b') = c # (r @ b')"
    using cr \<open>pos < length a\<close> by simp_all
  have nl: "b' = [] \<or> \<not> is_lower (hd b')" and nd: "b' = [] \<or> \<not> is_digit (hd b')"
    using assms(4) space_not_token_char by blast+
  have twl: "lx = c # takeWhile is_lower (r @ b) \<Longrightarrow>
      takeWhile is_lower (r @ b') = takeWhile is_lower (r @ b)"
    using len nl by (intro takeWhile_upto) simp_all
  have twd: "lx = c # takeWhile is_digit (r @ b) \<Longrightarrow>
      takeWhile is_digit (r @ b') = takeWhile is_digit (r @ b)"
    using len nd by (intro takeWhile_upto) simp_all
  from assms(1,2) show ?thesis
    unfolding master_pattern_match_first d
    by (simp split: if_splits) (use twl twd in metis)+
qed

lemma reaches_change_suffix:
  "reaches inp pos ln cl tokens \<Longrightarrow> inp = a @ b \<Longrightarrow> pos < length a \<Longrightarrow>
   reaches (a @ b') pos ln cl tokens"
proof (induction rule: reaches.induct)
  case start
  show ?case by (rule reaches.start)
next
  case (skip pos ln cl tokens lx)
  from skip.prems have lt: "pos + length lx < length a" by simp
  then have r: "reaches (a @ b') pos ln cl tokens" using skip.IH skip.prems by simp
  have m: "master_pattern_match (a @ b') pos = Some (WHITESPACE, lx)"
    using skip.hyps(3) skip.prems(1) lt by (auto intro: master_pattern_match_inside)
  show ?case by (rule reaches.skip [OF r _ m]) (use lt in simp)
next
  case (emit pos ln cl tokens kind lx ty)
  from emit.prems have lt: "pos + length lx < length a" by simp
  then have r: "reaches (a @ b') pos ln cl tokens" using emit.IH emit.prems by simp
  have m: "master_pattern_match (a @ b') pos = Some (kind, lx)"
    using emit.hyps(3) emit.prems(1) lt by (auto intro: master_pattern_match_inside)
  show ?case by (rule reaches.emit [OF r _ m emit.hyps(4,5)]) (use lt in simp)
qed

section \<open>Types and lexemes do not depend on the position\<close>

lemma tokenize_loop_same_shape:
  "tokenize_loop inp pos ln cl acc = Inr res \<Longrightarrow>
   map (\<lambda>t. (type t, lexeme t)) acc' = map (\<lambda>t. (type t, lexeme t)) acc \<Longrightarrow>
   \<exists>res'. tokenize_loop inp pos ln' cl' acc' = Inr res' \<and>
     map (\<lambda>t. (type t, lexeme t)) res' = map (\<lambda>t. (type t, lexeme t)) res"
proof (induction pos ln cl acc arbitrary: ln' cl' acc'
    rule: tokenize_loop_cases_induct [where inp = inp])
  case (at_end pos ln cl acc)
  then show ?case by (simp add: tokenize_loop_end)
next
  case (error pos ln cl acc)
  then show ?case by (simp add: tokenize_loop_error)
next
  case (skip pos ln cl acc lx)
  from skip.prems(1) skip.hyps have "tokenize_loop inp (pos + length lx)
      (fst (advance_position lx ln cl)) (snd (advance_position lx ln cl)) acc = Inr res"
    by (simp add: tokenize_loop_skip)
  from skip.IH [OF this skip.prems(2)] skip.hyps show ?case
    by (simp add: tokenize_loop_skip)
next
  case (emit pos ln cl acc kind lx ty)
  from emit.prems(1) emit.hyps have "tokenize_loop inp (pos + length lx)
      (fst (advance_position lx ln cl)) (snd (advance_position lx ln cl))
      (acc @ [\<lparr>type = ty, lexeme = lx, line = ln, col = cl\<rparr>]) = Inr res"
    by (simp add: tokenize_loop_emit)
  moreover have "map (\<lambda>t. (type t, lexeme t))
      (acc' @ [\<lparr>type = ty, lexeme = lx, line = ln', col = cl'\<rparr>]) =
    map (\<lambda>t. (type t, lexeme t)) (acc @ [\<lparr>type = ty, lexeme = lx, line = ln, col = cl\<rparr>])"
    using emit.prems(2) by simp
  ultimately have "\<exists>res'. tokenize_loop inp (pos + length lx)
      (fst (advance_position lx ln' cl')) (snd (advance_position lx ln' cl'))
      (acc' @ [\<lparr>type = ty, lexeme = lx, line = ln', col = cl'\<rparr>]) = Inr res' \<and>
     map (\<lambda>t. (type t, lexeme t)) res' = map (\<lambda>t. (type t, lexeme t)) res"
    by (rule emit.IH)
  with emit.hyps show ?case by (simp add: tokenize_loop_emit)
qed

lemma tokenize_loop_keeps_acc:
  "tokenize_loop inp pos ln cl acc = Inr res \<Longrightarrow> take (length acc) res = acc"
proof (induction pos ln cl acc rule: tokenize_loop_cases_induct [where inp = inp])
  case (at_end pos ln cl acc)
  then show ?case by (simp add: tokenize_loop_end)
next
  case (error pos ln cl acc)
  then show ?case by (simp add: tokenize_loop_error)
next
  case (skip pos ln cl acc lx)
  then show ?case by (simp add: tokenize_loop_skip)
next
  case (emit pos ln cl acc kind lx ty)
  from emit.prems emit.hyps have "tokenize_loop inp (pos + length lx)
      (fst (advance_position lx ln cl)) (snd (advance_position lx ln cl))
      (acc @ [\<lparr>type = ty, lexeme = lx, line = ln, col = cl\<rparr>]) = Inr res"
    by (simp add: tokenize_loop_emit)
  then have "take (length (acc @ [\<lparr>type = ty, lexeme = lx, line = ln, col = cl\<rparr>])) res =
      acc @ [\<lparr>type = ty, lexeme = lx, line = ln, col = cl\<rparr>]"
    by (rule emit.IH)
  then have "take (length acc) (take (Suc (length acc)) res) =
      take (length acc) (acc @ [\<lparr>type = ty, lexeme = lx, line = ln, col = cl\<rparr>])"
    by simp
  then show ?case by (simp add: min_def)
qed

text \<open>A run of whitespace before a text that does not start with whitespace is skipped
  in one iteration (or none, when the run is empty).\<close>

lemma tokenize_loop_leading_whitespace:
  assumes "\<forall>c\<in>set x. is_space c" and "r = [] \<or> \<not> is_space (hd r)"
  shows "\<exists>ln' cl'. tokenize_loop (x @ r) 0 ln cl acc = tokenize_loop r 0 ln' cl' acc"
proof (cases x)
  case Nil
  then show ?thesis by auto
next
  case (Cons c x')
  from assms(2) have "takeWhile is_space r = []" by (cases r) auto
  with assms(1) have "takeWhile is_space (x @ r) = x" by (simp add: takeWhile_append2)
  with Cons have m: "master_pattern_match (x @ r) 0 = Some (WHITESPACE, x)"
    by (simp add: master_pattern_match_def)
  from Cons have "0 < length (x @ r)" by simp
  from tokenize_loop_skip [OF this m]
  have "tokenize_loop (x @ r) 0 ln cl acc =
      tokenize_loop (x @ r) (length x + 0) (fst (advance_position x ln cl))
        (snd (advance_position x ln cl)) acc"
    by simp
  then show ?thesis unfolding tokenize_loop_append by blast
qed

lemma tokenize_loop_more_whitespace:
  assumes "tokenize_loop (u @ s) 0 ln cl acc = Inr res"
    and "\<forall>c\<in>set u. is_space c" and "\<forall>c\<in>set w. is_space c"
  shows "\<exists>res'. tokenize_loop (u @ w @ s) 0 ln cl acc = Inr res' \<and>
     map (\<lambda>t. (type t, lexeme t)) res' = map (\<lambda>t. (type t, lexeme t)) res"
proof -
  let ?v = "takeWhile is_space s" and ?r = "dropWhile is_space s"
  have s: "s = ?v @ ?r" by simp
  have r: "?r = [] \<or> \<not> is_space (hd ?r)"
    by (metis hd_dropWhile)
  have v: "\<forall>c\<in>set ?v. is_space c" by (metis set_takeWhileD)
  from assms(2) v have "\<forall>c\<in>set (u @ ?v). is_space c" by auto
  from tokenize_loop_leading_whitespace [OF this r, of ln cl acc]
  obtain lnA clA where A: "tokenize_loop (u @ s) 0 ln cl acc = tokenize_loop ?r 0 lnA clA acc"
    by auto
  from assms(2,3) v have "\<forall>c\<in>set (u @ w @ ?v). is_space c" by auto
  from tokenize_loop_leading_whitespace [OF this r, of ln cl acc]
  obtain lnB clB where B:
    "tokenize_loop (u @ w @ s) 0 ln cl acc = tokenize_loop ?r 0 lnB clB acc"
    by auto
  from assms(1) A have "tokenize_loop ?r 0 lnA clA acc = Inr res" by simp
  from tokenize_loop_same_shape [OF this refl, of lnB clB] B show ?thesis by simp
qed

section \<open>A run of lowercase letters inside a text\<close>

lemma reaches_lower_run:
  assumes "reaches inp pos ln cl tokens" and "pos < length inp" and "is_lower (inp ! pos)"
  shows "reaches inp (pos + length (takeWhile is_lower (drop pos inp)))
    (fst (advance_position (takeWhile is_lower (drop pos inp)) ln cl))
    (snd (advance_position (takeWhile is_lower (drop pos inp)) ln cl))
    (tokens @ [\<lparr>type = (if takeWhile is_lower (drop pos inp) \<in> lexer_keywords
                          then KEYWORD else IDENTIFIER),
                lexeme = takeWhile is_lower (drop pos inp), line = ln, col = cl\<rparr>])"
proof -
  have m: "master_pattern_match inp pos =
      Some (IDENTIFIER, takeWhile is_lower (drop pos inp))"
    using assms(2,3) by (rule master_pattern_match_lower)
  have ty: "token_type IDENTIFIER (takeWhile is_lower (drop pos inp)) =
      Inr (if takeWhile is_lower (drop pos inp) \<in> lexer_keywords then KEYWORD else IDENTIFIER)"
    by (simp add: token_type_def)
  show ?thesis
    by (rule reaches.emit [OF assms(1,2) m _ ty]) simp
qed

lemma lower_run_maximal:
  assumes "pos \<le> length inp"
  shows "pos + length (takeWhile is_lower (drop pos inp)) = length inp \<or>
    \<not> is_lower (inp ! (pos + length (takeWhile is_lower (drop pos inp))))"
proof (cases "length (takeWhile is_lower (drop pos inp)) < length (drop pos inp)")
  case True
  then have "\<not> is_lower (drop pos inp ! length (takeWhile is_lower (drop pos inp)))"
    by (rule nth_length_takeWhile)
  with assms show ?thesis by simp
next
  case False
  moreover have "length (takeWhile is_lower (drop pos inp)) \<le> length (drop pos inp)"
    by (rule length_takeWhile_le)
  ultimately have "length (takeWhile is_lower (drop pos inp)) = length inp - pos" by simp
  with assms show ?thesis by simp
qed

lemma reached_tokens_returned:
  assumes "reaches inp pos ln cl (tokens @ [t])" and "tokenize inp = Inr toks"
  shows "length tokens < length toks \<and> toks ! length tokens = t"
proof -
  from assms have "tokenize_loop inp pos ln cl (tokens @ [t]) = Inr toks"
    by (simp add: reaches_tokenize_loop)
  then have k: "take (length (tokens @ [t])) toks = tokens @ [t]"
    by (rule tokenize_loop_keeps_acc)
  then have "length (take (Suc (length tokens)) toks) = Suc (length tokens)" by simp
  then have l: "length tokens < length toks" by simp
  have "toks ! length tokens = take (length (tokens @ [t])) toks ! length tokens" by simp
  also have "\<dots> = (tokens @ [t]) ! length tokens" by (simp only: k)
  finally show ?thesis using l by simp
qed

lemma keyword_extension_not_reserved:
  "kw \<in> lexer_keywords \<Longrightarrow> r \<noteq> [] \<Longrightarrow> kw @ r \<notin> lexer_keywords"
  by (auto simp: lexer_keywords_def str_def)

section \<open>Evaluation on concrete texts\<close>

lemmas lexer_eval =
  WHITESPACE_def IDENTIFIER_def INTEGER_def OPERATOR_def DELIMITER_def KEYWORD_def
  tokenize_def tokenize_loop.simps master_pattern_match_def advance_position_def
  token_type_def str_def is_space_def is_lower_def is_digit_def is_operator_def
  is_delimiter_def lexer_keywords_def newline_def Let_def

text \<open>
  C1. The text \<open>if (x = 10) x = x + 1;\<close> tokenizes without error to twelve tokens:
  Keyword \<open>if\<close> at line 1 column 1, Delimiter \<open>(\<close> at 1,4, Identifier \<open>x\<close> at 1,5,
  Operator \<open>=\<close> at 1,7, Integer \<open>10\<close> at 1,9, Delimiter \<open>)\<close> at 1,11, Identifier \<open>x\<close>
  at 1,13, Operator \<open>=\<close> at 1,15, Identifier \<open>x\<close> at 1,17, Operator \<open>+\<close> at 1,19,
  Integer \<open>1\<close> at 1,21 and Delimiter \<open>;\<close> at 1,22, each with the 1-based line and column
  of its first character.
\<close>

theorem tokenize_demo_source:
  "tokenize (str ''if (x = 10) x = x + 1;'') = Inr
    [\<lparr>type = ''KEYWORD'', lexeme = str ''if'', line = 1, col = 1\<rparr>,
     \<lparr>type = ''DELIMITER'', lexeme = str ''('', line = 1, col = 4\<rparr>,
     \<lparr>type = ''IDENTIFIER'', lexeme = str ''x'', line = 1, col = 5\<rparr>,
     \<lparr>type = ''OPERATOR'', lexeme = str ''='', line = 1, col = 7\<rparr>,
     \<lparr>type = ''INTEGER'', lexeme = str ''10'', line = 1, col = 9\<rparr>,
     \<lparr>type = ''DELIMITER'', lexeme = str '')'', line = 1, col = 11\<rparr>,
     \<lparr>type = ''IDENTIFIER'', lexeme = str ''x'', line = 1, col = 13\<rparr>,
     \<lparr>type = ''OPERATOR'', lexeme = str ''='', line = 1, col = 15\<rparr>,
     \<lparr>type = ''IDENTIFIER'', lexeme = str ''x'', line = 1, col = 17\<rparr>,
     \<lparr>type = ''OPERATOR'', lexeme = str ''+'', line = 1, col = 19\<rparr>,
     \<lparr>type = ''INTEGER'', lexeme = str ''1'', line = 1, col = 21\<rparr>,
     \<lparr>type = ''DELIMITER'', lexeme = str '';'', line = 1, col = 22\<rparr>]"
  by (simp add: lexer_eval)

text \<open>
  C2. Line and column advance by one rule over every matched span, whitespace or token:
  with no newline in the matched text the column grows by its length and the line stays;
  with \<open>k \<ge> 1\<close> newlines the line grows by \<open>k\<close> and the column becomes 1 plus the number
  of characters after the last newline. Every iteration of the loop that matches a span
  continues with the line and column so advanced. The text \<open>x\<close>, newline, two spaces,
  \<open>y\<close> gives Identifier \<open>x\<close> at line 1 column 1 and Identifier \<open>y\<close> at line 2 column 3.
\<close>

theorem advance_position_rule:
  "(count_list lx newline = 0 \<longrightarrow>
      advance_position lx ln cl = (ln, cl + int (length lx))) \<and>
   (1 \<le> count_list lx newline \<longrightarrow>
      advance_position lx ln cl =
        (ln + int (count_list lx newline),
         1 + int (length (takeWhile (\<lambda>c. c \<noteq> newline) (rev lx))))) \<and>
   (pos < length inp \<and> master_pattern_match inp pos = Some (kind, mx) \<longrightarrow>
      (\<exists>tokens'. tokenize_loop inp pos ln cl tokens =
           tokenize_loop inp (pos + length mx) (fst (advance_position mx ln cl))
             (snd (advance_position mx ln cl)) tokens' \<and>
         (if kind = WHITESPACE then tokens' = tokens
          else \<exists>ty. tokens' = tokens @ [\<lparr>type = ty, lexeme = mx, line = ln, col = cl\<rparr>]))) \<and>
   tokenize (str ''x\<newline>  y'') = Inr
     [\<lparr>type = ''IDENTIFIER'', lexeme = str ''x'', line = 1, col = 1\<rparr>,
      \<lparr>type = ''IDENTIFIER'', lexeme = str ''y'', line = 2, col = 3\<rparr>]"
proof (intro conjI impI)
  assume "count_list lx newline = 0"
  then show "advance_position lx ln cl = (ln, cl + int (length lx))"
    by (rule advance_position_no_newline)
next
  assume "1 \<le> count_list lx newline"
  then show "advance_position lx ln cl =
      (ln + int (count_list lx newline),
       1 + int (length (takeWhile (\<lambda>c. c \<noteq> newline) (rev lx))))"
    by (rule advance_position_newlines)
next
  assume a: "pos < length inp \<and> master_pattern_match inp pos = Some (kind, mx)"
  show "\<exists>tokens'. tokenize_loop inp pos ln cl tokens =
           tokenize_loop inp (pos + length mx) (fst (advance_position mx ln cl))
             (snd (advance_position mx ln cl)) tokens' \<and>
         (if kind = WHITESPACE then tokens' = tokens
          else \<exists>ty. tokens' = tokens @ [\<lparr>type = ty, lexeme = mx, line = ln, col = cl\<rparr>])"
  proof (cases "kind = WHITESPACE")
    case True
    with a show ?thesis by (auto simp: tokenize_loop_skip)
  next
    case False
    with a obtain ty where "token_type kind mx = Inr ty"
      using token_type_total by blast
    with a False have "tokenize_loop inp pos ln cl tokens =
        tokenize_loop inp (pos + length mx) (fst (advance_position mx ln cl))
          (snd (advance_position mx ln cl))
          (tokens @ [\<lparr>type = ty, lexeme = mx, line = ln, col = cl\<rparr>])"
      by (simp add: tokenize_loop_emit)
    with False show ?thesis by auto
  qed
next
  show "tokenize (str ''x\<newline>  y'') = Inr
     [\<lparr>type = ''IDENTIFIER'', lexeme = str ''x'', line = 1, col = 1\<rparr>,
      \<lparr>type = ''IDENTIFIER'', lexeme = str ''y'', line = 2, col = 3\<rparr>]"
    by (simp add: lexer_eval)
qed

theorem advance_position_rule_witness:
  "count_list (str ''  '') newline = 0 \<and>
   advance_position (str ''  '') 1 2 = (1, 4) \<and>
   1 \<le> count_list (str ''\<newline>  '') newline \<and>
   advance_position (str ''\<newline>  '') 1 2 = (2, 3) \<and>
   1 < length (str ''x\<newline>  y'') \<and>
   master_pattern_match (str ''x\<newline>  y'') 1 = Some (WHITESPACE, str ''\<newline>  '') \<and>
   tokenize_loop (str ''x\<newline>  y'') 1 1 2 [] = tokenize_loop (str ''x\<newline>  y'') 4 2 3 []"
proof -
  have h1: "count_list (str ''  '') newline = 0"
    by (simp add: str_def newline_def)
  have h2: "1 \<le> count_list (str ''\<newline>  '') newline"
    by (simp add: str_def newline_def)
  have h3: "1 < length (str ''x\<newline>  y'') \<and>
    master_pattern_match (str ''x\<newline>  y'') 1 = Some (WHITESPACE, str ''\<newline>  '')"
    by (simp add: str_def master_pattern_match_def is_space_def Let_def)
  from advance_position_rule [of "str ''  ''" 1 2 0 "[]" WHITESPACE "[]" "[]"] h1
  have r1: "advance_position (str ''  '') 1 2 = (1, 2 + int (length (str ''  '')))"
    by simp
  from advance_position_rule [of "str ''\<newline>  ''" 1 2 1 "str ''x\<newline>  y''" WHITESPACE
      "str ''\<newline>  ''" "[]"] h2 h3
  have r2: "advance_position (str ''\<newline>  '') 1 2 =
        (1 + int (count_list (str ''\<newline>  '') newline),
         1 + int (length (takeWhile (\<lambda>c. c \<noteq> newline) (rev (str ''\<newline>  '')))))"
    and r3: "tokenize_loop (str ''x\<newline>  y'') 1 1 2 [] =
          tokenize_loop (str ''x\<newline>  y'') (1 + length (str ''\<newline>  ''))
            (fst (advance_position (str ''\<newline>  '') 1 2))
            (snd (advance_position (str ''\<newline>  '') 1 2)) []"
    by simp_all
  have e2: "advance_position (str ''\<newline>  '') 1 2 = (2, 3)"
    using r2 by (simp add: str_def newline_def)
  have e1: "advance_position (str ''  '') 1 2 = (1, 4)"
    using r1 by (simp add: str_def)
  have len: "1 + length (str ''\<newline>  '') = 4"
    by (simp add: str_def)
  have e3: "tokenize_loop (str ''x\<newline>  y'') 1 1 2 [] = tokenize_loop (str ''x\<newline>  y'') 4 2 3 []"
    using r3 by (simp only: len e2 fst_conv snd_conv)
  from h1 e1 h2 e2 h3 e3 show ?thesis by simp
qed

text \<open>
  C3. \<open>tokenize\<close> fails exactly when the loop arrives at a position of the text where no
  alternative of the pattern matches; the result is then the error alone, which carries
  the character at that position and the line and column of that moment, both at least
  1. The text \<open>x = A;\<close> fails with the character \<open>A\<close>, line 1, column 5; the empty text
  gives the empty token list.
\<close>

theorem tokenize_error_iff:
  "(tokenize inp = Inl e \<longleftrightarrow>
      (\<exists>pos ln cl tokens. reaches inp pos ln cl tokens \<and> pos < length inp \<and>
         master_pattern_match inp pos = None \<and> e = ValueError (inp ! pos) ln cl \<and>
         1 \<le> ln \<and> 1 \<le> cl)) \<and>
   tokenize (str ''x = A;'') = Inl (ValueError (of_char CHR ''A'') 1 5) \<and>
   tokenize [] = Inr []"
proof (intro conjI iffI)
  assume "tokenize inp = Inl e"
  then obtain pos ln cl tokens where r: "reaches inp pos ln cl tokens"
    and "pos < length inp" "master_pattern_match inp pos = None"
    "e = ValueError (inp ! pos) ln cl"
    using tokenize_error_reaches by blast
  moreover from r have "1 \<le> ln \<and> 1 \<le> cl" by (rule reaches_one_based)
  ultimately show "\<exists>pos ln cl tokens. reaches inp pos ln cl tokens \<and> pos < length inp \<and>
         master_pattern_match inp pos = None \<and> e = ValueError (inp ! pos) ln cl \<and>
         1 \<le> ln \<and> 1 \<le> cl"
    by blast
next
  assume "\<exists>pos ln cl tokens. reaches inp pos ln cl tokens \<and> pos < length inp \<and>
         master_pattern_match inp pos = None \<and> e = ValueError (inp ! pos) ln cl \<and>
         1 \<le> ln \<and> 1 \<le> cl"
  then show "tokenize inp = Inl e"
    using reaches_error by blast
next
  show "tokenize (str ''x = A;'') = Inl (ValueError (of_char CHR ''A'') 1 5)"
    by (simp add: lexer_eval)
next
  show "tokenize [] = Inr []"
    by (simp add: tokenize_def tokenize_loop_end)
qed

theorem tokenize_error_iff_witness:
  "\<exists>pos ln cl tokens. reaches (str ''x = A;'') pos ln cl tokens \<and>
     pos < length (str ''x = A;'') \<and> master_pattern_match (str ''x = A;'') pos = None \<and>
     ValueError (of_char CHR ''A'') 1 5 = ValueError (str ''x = A;'' ! pos) ln cl \<and>
     1 \<le> ln \<and> 1 \<le> cl"
proof -
  note t = tokenize_error_iff [of "str ''x = A;''" "ValueError (of_char CHR ''A'') 1 5"]
  from t have "tokenize (str ''x = A;'') = Inl (ValueError (of_char CHR ''A'') 1 5)"
    by (rule conjunct2 [THEN conjunct1])
  with t show ?thesis by (simp only: simp_thms)
qed

text \<open>
  C5. \<open>reserved_words\<close> is \<open>{if, else, while}\<close>. Each of its strings, tokenized alone, gives
  one Keyword token with that lexeme; every non-empty string of lowercase letters that
  is not among them, tokenized alone, gives one Identifier token. A token type is
  Keyword only for a match of the identifier group whose text is a reserved word.
\<close>

theorem keyword_precedence:
  "lexer_keywords = {str ''if'', str ''else'', str ''while''} \<and>
   (kw \<in> lexer_keywords \<longrightarrow>
      tokenize kw = Inr [\<lparr>type = ''KEYWORD'', lexeme = kw, line = 1, col = 1\<rparr>]) \<and>
   (lx \<noteq> [] \<and> (\<forall>c\<in>set lx. is_lower c) \<and> lx \<notin> lexer_keywords \<longrightarrow>
      tokenize lx = Inr [\<lparr>type = ''IDENTIFIER'', lexeme = lx, line = 1, col = 1\<rparr>]) \<and>
   (token_type kind mx = Inr ''KEYWORD'' \<longleftrightarrow> kind = ''IDENTIFIER'' \<and> mx \<in> lexer_keywords)"
proof (intro conjI impI)
  show "lexer_keywords = {str ''if'', str ''else'', str ''while''}"
    by (rule lexer_keywords_def)
next
  assume "kw \<in> lexer_keywords"
  then show "tokenize kw = Inr [\<lparr>type = ''KEYWORD'', lexeme = kw, line = 1, col = 1\<rparr>]"
    using keywords_lower [of kw] tokenize_lower_run [of kw] by (simp add: KEYWORD_def)
next
  assume "lx \<noteq> [] \<and> (\<forall>c\<in>set lx. is_lower c) \<and> lx \<notin> lexer_keywords"
  then show "tokenize lx = Inr [\<lparr>type = ''IDENTIFIER'', lexeme = lx, line = 1, col = 1\<rparr>]"
    using tokenize_lower_run [of lx] by (simp add: IDENTIFIER_def)
next
  have "token_type kind mx = Inr KEYWORD \<longleftrightarrow> kind = IDENTIFIER \<and> mx \<in> lexer_keywords"
    by (simp add: token_type_def)
  then show "token_type kind mx = Inr ''KEYWORD'' \<longleftrightarrow>
      kind = ''IDENTIFIER'' \<and> mx \<in> lexer_keywords"
    by (simp only: KEYWORD_def IDENTIFIER_def)
qed

theorem keyword_precedence_witness:
  "str ''while'' \<in> lexer_keywords \<and>
   tokenize (str ''while'') =
     Inr [\<lparr>type = ''KEYWORD'', lexeme = str ''while'', line = 1, col = 1\<rparr>] \<and>
   str ''whilst'' \<noteq> [] \<and> str ''whilst'' \<notin> lexer_keywords \<and>
   tokenize (str ''whilst'') =
     Inr [\<lparr>type = ''IDENTIFIER'', lexeme = str ''whilst'', line = 1, col = 1\<rparr>] \<and>
   token_type ''IDENTIFIER'' (str ''else'') = Inr ''KEYWORD''"
proof -
  have k: "str ''while'' \<in> lexer_keywords" "str ''else'' \<in> lexer_keywords"
    by (simp_all add: lexer_keywords_def)
  have i: "str ''whilst'' \<noteq> [] \<and> (\<forall>c\<in>set (str ''whilst''). is_lower c) \<and>
      str ''whilst'' \<notin> lexer_keywords"
    by (simp add: lexer_keywords_def str_def is_lower_def)
  from keyword_precedence [of "str ''while''" "str ''whilst''" "''IDENTIFIER''" "str ''else''"] k i
  show ?thesis by simp
qed

text \<open>
  C6. At a lowercase letter the identifier group matches the whole maximal run of
  lowercase letters, and the reserved-word test sees that whole run. Whenever the loop
  arrives at a lowercase letter, it appends one token whose lexeme is the maximal run
  of lowercase letters from there (the text ends after the run, or the next character is
  no lowercase letter), of type Keyword when that whole run is a reserved word and
  Identifier otherwise, and a successful run returns this token at that index. So a
  reserved word followed by more lowercase letters, tokenized alone, is one Identifier
  token; \<open>ifx\<close> is one Identifier token with lexeme \<open>ifx\<close>, not Keyword \<open>if\<close> followed by
  Identifier \<open>x\<close>.
\<close>

theorem identifier_maximal_run:
  "(pos < length inp \<and> is_lower (inp ! pos) \<longrightarrow>
      master_pattern_match inp pos = Some (''IDENTIFIER'', takeWhile is_lower (drop pos inp))) \<and>
   (reaches inp pos ln cl tokens \<and> pos < length inp \<and> is_lower (inp ! pos) \<and>
    run = takeWhile is_lower (drop pos inp) \<and>
    tok = \<lparr>type = (if run \<in> lexer_keywords then ''KEYWORD'' else ''IDENTIFIER''),
           lexeme = run, line = ln, col = cl\<rparr> \<longrightarrow>
      reaches inp (pos + length run) (fst (advance_position run ln cl))
        (snd (advance_position run ln cl)) (tokens @ [tok]) \<and>
      (pos + length run = length inp \<or> \<not> is_lower (inp ! (pos + length run))) \<and>
      (\<forall>toks. tokenize inp = Inr toks \<longrightarrow>
         length tokens < length toks \<and> toks ! length tokens = tok)) \<and>
   (kw \<in> lexer_keywords \<and> r \<noteq> [] \<and> (\<forall>c\<in>set r. is_lower c) \<longrightarrow>
      tokenize (kw @ r) =
        Inr [\<lparr>type = ''IDENTIFIER'', lexeme = kw @ r, line = 1, col = 1\<rparr>]) \<and>
   tokenize (str ''ifx'') =
     Inr [\<lparr>type = ''IDENTIFIER'', lexeme = str ''ifx'', line = 1, col = 1\<rparr>]"
proof (intro conjI impI allI)
  assume "pos < length inp \<and> is_lower (inp ! pos)"
  then show "master_pattern_match inp pos =
      Some (''IDENTIFIER'', takeWhile is_lower (drop pos inp))"
    using master_pattern_match_lower [of pos inp] by (simp add: IDENTIFIER_def)
next
  assume a: "reaches inp pos ln cl tokens \<and> pos < length inp \<and> is_lower (inp ! pos) \<and>
    run = takeWhile is_lower (drop pos inp) \<and>
    tok = \<lparr>type = (if run \<in> lexer_keywords then ''KEYWORD'' else ''IDENTIFIER''),
           lexeme = run, line = ln, col = cl\<rparr>"
  then have h: "reaches inp pos ln cl tokens" "pos < length inp" "is_lower (inp ! pos)"
    and eqr: "run = takeWhile is_lower (drop pos inp)"
    by simp_all
  from a have eqt: "tok = \<lparr>type = (if run \<in> lexer_keywords then KEYWORD else IDENTIFIER),
      lexeme = run, line = ln, col = cl\<rparr>"
    by (simp only: KEYWORD_def IDENTIFIER_def)
  show r: "reaches inp (pos + length run) (fst (advance_position run ln cl))
        (snd (advance_position run ln cl)) (tokens @ [tok])"
    unfolding eqt unfolding eqr by (rule reaches_lower_run [OF h])
  from h(2) have "pos \<le> length inp" by simp
  then show "pos + length run = length inp \<or> \<not> is_lower (inp ! (pos + length run))"
    unfolding eqr by (rule lower_run_maximal)
  fix toks
  assume t: "tokenize inp = Inr toks"
  from reached_tokens_returned [OF r t]
  show "length tokens < length toks" "toks ! length tokens = tok"
    by simp_all
next
  assume a: "kw \<in> lexer_keywords \<and> r \<noteq> [] \<and> (\<forall>c\<in>set r. is_lower c)"
  then have "kw @ r \<noteq> []" "\<forall>c\<in>set (kw @ r). is_lower c" "kw @ r \<notin> lexer_keywords"
    using keywords_lower [of kw] keyword_extension_not_reserved [of kw r] by auto
  then show "tokenize (kw @ r) =
      Inr [\<lparr>type = ''IDENTIFIER'', lexeme = kw @ r, line = 1, col = 1\<rparr>]"
    using tokenize_lower_run [of "kw @ r"] by (simp add: IDENTIFIER_def)
next
  show "tokenize (str ''ifx'') =
     Inr [\<lparr>type = ''IDENTIFIER'', lexeme = str ''ifx'', line = 1, col = 1\<rparr>]"
    by (simp add: lexer_eval)
qed

theorem identifier_maximal_run_witness:
  "master_pattern_match (str ''whilex+'') 0 = Some (''IDENTIFIER'', str ''whilex'') \<and>
   reaches (str ''whilex+'') 6 1 7
     [\<lparr>type = ''IDENTIFIER'', lexeme = str ''whilex'', line = 1, col = 1\<rparr>] \<and>
   \<not> is_lower (str ''whilex+'' ! 6) \<and>
   tokenize (str ''whilex+'') =
     Inr [\<lparr>type = ''IDENTIFIER'', lexeme = str ''whilex'', line = 1, col = 1\<rparr>,
          \<lparr>type = ''OPERATOR'', lexeme = str ''+'', line = 1, col = 7\<rparr>] \<and>
   [\<lparr>type = ''IDENTIFIER'', lexeme = str ''whilex'', line = 1, col = 1\<rparr>,
    \<lparr>type = ''OPERATOR'', lexeme = str ''+'', line = 1, col = 7\<rparr>] ! length ([]::Token list) =
     \<lparr>type = ''IDENTIFIER'', lexeme = str ''whilex'', line = 1, col = 1\<rparr> \<and>
   tokenize (str ''else'' @ str ''x'') =
     Inr [\<lparr>type = ''IDENTIFIER'', lexeme = str ''else'' @ str ''x'', line = 1, col = 1\<rparr>]"
proof -
  let ?inp = "str ''whilex+''" and ?run = "str ''whilex''"
  let ?tok = "\<lparr>type = ''IDENTIFIER'', lexeme = str ''whilex'', line = 1, col = 1\<rparr>"
  let ?toks = "[?tok, \<lparr>type = ''OPERATOR'', lexeme = str ''+'', line = 1, col = 7\<rparr>]"
  note th = identifier_maximal_run [of 0 ?inp 1 1 "[]" ?run ?tok "str ''else''" "str ''x''"]
  have h1: "0 < length ?inp \<and> is_lower (?inp ! 0)"
    by (simp add: str_def is_lower_def)
  have run: "?run = takeWhile is_lower (drop 0 ?inp)"
    by (simp add: str_def is_lower_def)
  have nk: "?run \<notin> lexer_keywords"
    by (simp add: lexer_keywords_def str_def)
  then have tok: "?tok = \<lparr>type = (if ?run \<in> lexer_keywords then ''KEYWORD'' else ''IDENTIFIER''),
      lexeme = ?run, line = 1, col = 1\<rparr>"
    by simp
  have h2: "reaches ?inp 0 1 1 [] \<and> 0 < length ?inp \<and> is_lower (?inp ! 0) \<and>
      ?run = takeWhile is_lower (drop 0 ?inp) \<and>
      ?tok = \<lparr>type = (if ?run \<in> lexer_keywords then ''KEYWORD'' else ''IDENTIFIER''),
        lexeme = ?run, line = 1, col = 1\<rparr>"
    using h1 run tok reaches.start [of ?inp] by (intro conjI) simp_all
  have h3: "str ''else'' \<in> lexer_keywords \<and> str ''x'' \<noteq> [] \<and>
      (\<forall>c\<in>set (str ''x''). is_lower c)"
    by (simp add: lexer_keywords_def str_def is_lower_def)
  have t: "tokenize ?inp = Inr ?toks"
    by (simp add: lexer_eval)
  note c1 = th [THEN conjunct1, THEN mp, OF h1]
  note c2 = th [THEN conjunct2, THEN conjunct1, THEN mp, OF h2]
  note c3 = th [THEN conjunct2, THEN conjunct2, THEN conjunct1, THEN mp, OF h3]
  have adv: "advance_position ?run 1 1 = (1, 7)"
    by (simp add: advance_position_def str_def newline_def)
  have len: "0 + length ?run = 6" by (simp add: str_def)
  from c2 [THEN conjunct1] have r: "reaches ?inp 6 1 7 [?tok]"
    by (simp only: adv len fst_conv snd_conv append_Nil)
  have nl: "\<not> is_lower (?inp ! 6)" by (simp add: str_def is_lower_def)
  have ix: "?toks ! length ([]::Token list) = ?tok"
    by (rule c2 [THEN conjunct2, THEN conjunct2, rule_format, OF t, THEN conjunct2])
  from c1 run have m: "master_pattern_match ?inp 0 = Some (''IDENTIFIER'', ?run)"
    by simp
  from m r nl t ix c3 show ?thesis by (intro conjI) assumption+
qed

text \<open>
  C9. The tokens of a successful run are in strictly increasing source order: for any two
  positions \<open>i < j\<close> of the returned list (so also for neighbours), the line of token \<open>i\<close>
  is at most the line of token \<open>j\<close>, and the pair (line, column) of token \<open>i\<close> is strictly
  smaller, lexicographically, than that of token \<open>j\<close>.
\<close>

theorem tokens_strictly_increasing:
  assumes "tokenize inp = Inr toks" and "i < j" and "j < length toks"
  shows "line (toks ! i) \<le> line (toks ! j) \<and>
    (line (toks ! i) < line (toks ! j) \<or>
     (line (toks ! i) = line (toks ! j) \<and> col (toks ! i) < col (toks ! j)))"
proof -
  from assms(1) obtain ln cl where "reaches inp (length inp) ln cl toks"
    using tokenize_success_reaches by blast
  then have "sorted_wrt (\<lambda>a b. line a < line b \<or> (line a = line b \<and> col a < col b)) toks"
    using reaches_sorted by blast
  from sorted_wrt_nth_less [OF this assms(2,3)]
  have "line (toks ! i) < line (toks ! j) \<or>
     (line (toks ! i) = line (toks ! j) \<and> col (toks ! i) < col (toks ! j))" .
  then show ?thesis by auto
qed

theorem tokens_strictly_increasing_witness:
  "tokenize (str ''a b'') =
     Inr [\<lparr>type = ''IDENTIFIER'', lexeme = str ''a'', line = 1, col = 1\<rparr>,
          \<lparr>type = ''IDENTIFIER'', lexeme = str ''b'', line = 1, col = 3\<rparr>] \<and>
   (0::nat) < 1 \<and>
   1 < length [\<lparr>type = ''IDENTIFIER'', lexeme = str ''a'', line = 1, col = 1\<rparr>,
               \<lparr>type = ''IDENTIFIER'', lexeme = str ''b'', line = 1, col = 3\<rparr>] \<and>
   line ([\<lparr>type = ''IDENTIFIER'', lexeme = str ''a'', line = 1, col = 1\<rparr>,
          \<lparr>type = ''IDENTIFIER'', lexeme = str ''b'', line = 1, col = 3\<rparr>] ! 0)
   \<le> line ([\<lparr>type = ''IDENTIFIER'', lexeme = str ''a'', line = 1, col = 1\<rparr>,
          \<lparr>type = ''IDENTIFIER'', lexeme = str ''b'', line = 1, col = 3\<rparr>] ! 1)"
proof -
  have t: "tokenize (str ''a b'') =
     Inr [\<lparr>type = ''IDENTIFIER'', lexeme = str ''a'', line = 1, col = 1\<rparr>,
          \<lparr>type = ''IDENTIFIER'', lexeme = str ''b'', line = 1, col = 3\<rparr>]"
    by (simp add: lexer_eval)
  have ij: "(0::nat) < 1" by simp
  have len: "1 < length [\<lparr>type = ''IDENTIFIER'', lexeme = str ''a'', line = 1, col = 1\<rparr>,
               \<lparr>type = ''IDENTIFIER'', lexeme = str ''b'', line = 1, col = 3\<rparr>]"
    by simp
  from tokens_strictly_increasing [OF t ij len] t ij len show ?thesis
    by (intro conjI) (erule conjunct1 | assumption)+
qed

text \<open>
  C10. Every token the loop appends, in a successful run or before an error, has a
  non-empty lexeme that fits its type: a \<open>KEYWORD\<close> is one of \<open>if\<close>, \<open>else\<close>, \<open>while\<close>; an
  \<open>IDENTIFIER\<close> is a run of lowercase letters that is not a reserved word; an \<open>INTEGER\<close>
  is a run of digits; an \<open>OPERATOR\<close> is one character among \<open>+ - * / =\<close>; a \<open>DELIMITER\<close>
  is one character among \<open>( ) ;\<close>. There is no other token type.
\<close>

theorem emitted_tokens_conform:
  assumes "reaches inp pos ln cl tokens \<or> tokenize inp = Inr tokens"
    and "t \<in> set tokens"
  shows "lexeme t \<noteq> [] \<and>
    (type t = ''KEYWORD'' \<and> lexeme t \<in> {str ''if'', str ''else'', str ''while''} \<or>
     type t = ''IDENTIFIER'' \<and> (\<forall>c\<in>set (lexeme t). is_lower c) \<and>
       lexeme t \<notin> {str ''if'', str ''else'', str ''while''} \<or>
     type t = ''INTEGER'' \<and> (\<forall>c\<in>set (lexeme t). is_digit c) \<or>
     type t = ''OPERATOR'' \<and> (\<exists>c. lexeme t = [c] \<and> c \<in> set (str ''+-*/='')) \<or>
     type t = ''DELIMITER'' \<and> (\<exists>c. lexeme t = [c] \<and> c \<in> set (str ''();'')))"
proof -
  from assms(1) obtain pos' ln' cl' where "reaches inp pos' ln' cl' tokens"
    using tokenize_success_reaches by blast
  from reaches_conform [OF this assms(2)] show ?thesis
    unfolding KEYWORD_def IDENTIFIER_def INTEGER_def OPERATOR_def DELIMITER_def
      lexer_keywords_def is_operator_def is_delimiter_def .
qed

theorem emitted_tokens_conform_witness:
  "tokenize (str ''if 7'') =
     Inr [\<lparr>type = ''KEYWORD'', lexeme = str ''if'', line = 1, col = 1\<rparr>,
          \<lparr>type = ''INTEGER'', lexeme = str ''7'', line = 1, col = 4\<rparr>] \<and>
   lexeme \<lparr>type = ''INTEGER'', lexeme = str ''7'', line = 1, col = 4\<rparr> \<noteq> [] \<and>
   is_digit (of_char CHR ''7'')"
proof -
  let ?k = "\<lparr>type = ''KEYWORD'', lexeme = str ''if'', line = 1, col = 1\<rparr>"
  let ?i = "\<lparr>type = ''INTEGER'', lexeme = str ''7'', line = 1, col = 4\<rparr>"
  have t: "tokenize (str ''if 7'') = Inr [?k, ?i]"
    by (simp add: lexer_eval)
  then have a: "reaches (str ''if 7'') 0 1 1 [?k, ?i] \<or> tokenize (str ''if 7'') = Inr [?k, ?i]"
    by (rule disjI2)
  have b: "?i \<in> set [?k, ?i]" by simp
  from emitted_tokens_conform [OF a b] have "lexeme ?i \<noteq> []"
    and "type ?i = ''KEYWORD'' \<and> lexeme ?i \<in> {str ''if'', str ''else'', str ''while''} \<or>
     type ?i = ''IDENTIFIER'' \<and> (\<forall>c\<in>set (lexeme ?i). is_lower c) \<and>
       lexeme ?i \<notin> {str ''if'', str ''else'', str ''while''} \<or>
     type ?i = ''INTEGER'' \<and> (\<forall>c\<in>set (lexeme ?i). is_digit c) \<or>
     type ?i = ''OPERATOR'' \<and> (\<exists>c. lexeme ?i = [c] \<and> c \<in> set (str ''+-*/='')) \<or>
     type ?i = ''DELIMITER'' \<and> (\<exists>c. lexeme ?i = [c] \<and> c \<in> set (str ''();''))"
    by (rule conjunct1, rule conjunct2)
  then have "lexeme ?i \<noteq> []" and "is_digit (of_char CHR ''7'')"
    by (simp_all add: str_def)
  with t show ?thesis by simp
qed

text \<open>
  C7. In a successful run the spans matched by the successive iterations, whitespace
  included, concatenate to the input: they tile it without gap or overlap. The spans
  that are not whitespace are, in order, the lexemes of the returned tokens, and the
  others consist of whitespace characters only.
\<close>

theorem matched_spans_tile_input:
  assumes "tokenize inp = Inr toks"
  shows "concat (map snd (matched_spans inp 0)) = inp \<and>
    map lexeme toks = map snd (filter (\<lambda>s. fst s \<noteq> WHITESPACE) (matched_spans inp 0)) \<and>
    (\<forall>s\<in>set (matched_spans inp 0). fst s = WHITESPACE \<longrightarrow> (\<forall>c\<in>set (snd s). is_space c))"
proof -
  from assms obtain ln cl where "reaches inp (length inp) ln cl toks"
    using tokenize_success_reaches by blast
  from reaches_spans [OF this] show ?thesis
    by (simp add: matched_spans_end)
qed

theorem matched_spans_tile_input_witness:
  "tokenize (str ''a +b'') =
     Inr [\<lparr>type = ''IDENTIFIER'', lexeme = str ''a'', line = 1, col = 1\<rparr>,
          \<lparr>type = ''OPERATOR'', lexeme = str ''+'', line = 1, col = 3\<rparr>,
          \<lparr>type = ''IDENTIFIER'', lexeme = str ''b'', line = 1, col = 4\<rparr>] \<and>
   matched_spans (str ''a +b'') 0 =
     [(''IDENTIFIER'', str ''a''), (''WHITESPACE'', str '' ''), (''OPERATOR'', str ''+''),
      (''IDENTIFIER'', str ''b'')] \<and>
   concat (map snd (matched_spans (str ''a +b'') 0)) = str ''a +b''"
proof -
  have t: "tokenize (str ''a +b'') =
     Inr [\<lparr>type = ''IDENTIFIER'', lexeme = str ''a'', line = 1, col = 1\<rparr>,
          \<lparr>type = ''OPERATOR'', lexeme = str ''+'', line = 1, col = 3\<rparr>,
          \<lparr>type = ''IDENTIFIER'', lexeme = str ''b'', line = 1, col = 4\<rparr>]"
    by (simp add: lexer_eval)
  have m: "matched_spans (str ''a +b'') 0 =
     [(''IDENTIFIER'', str ''a''), (''WHITESPACE'', str '' ''), (''OPERATOR'', str ''+''),
      (''IDENTIFIER'', str ''b'')]"
    by (simp add: matched_spans.simps lexer_eval)
  from matched_spans_tile_input [OF t]
  have "concat (map snd (matched_spans (str ''a +b'') 0)) = str ''a +b''"
    by (rule conjunct1)
  with t m show ?thesis by (intro conjI)
qed

text \<open>
  C4, as the code has it. The whitespace alternative is \<open>\s+\<close>: it matches exactly the
  non-empty maximal runs of characters of Python's Unicode whitespace class, which holds
  space, tab and newline and also carriage return, vertical tab, form feed, U+001C to
  U+001F, U+0085, U+00A0 and the Unicode space separators. When the loop arrives at a
  character that is neither in that class nor a lowercase letter, a digit, one of
  \<open>+ - * / =\<close> or one of \<open>( ) ;\<close>, \<open>tokenize\<close> raises the error for that character and the
  current line and column instead of consuming it.
\<close>

theorem whitespace_and_fatal_characters:
  "(master_pattern_match inp pos = Some (WHITESPACE, lx) \<longleftrightarrow>
      lx \<noteq> [] \<and> lx = takeWhile is_space (drop pos inp)) \<and>
   (is_space c \<longleftrightarrow>
      c \<in> {0x09..0x0D} \<union> {0x1C..0x20} \<union> {0x85, 0xA0, 0x1680} \<union> {0x2000..0x200A} \<union>
        {0x2028, 0x2029, 0x202F, 0x205F, 0x3000}) \<and>
   (reaches inp p ln cl tokens \<and> p < length inp \<and> \<not> is_space (inp ! p) \<and>
    \<not> is_lower (inp ! p) \<and> \<not> is_digit (inp ! p) \<and> \<not> is_operator (inp ! p) \<and>
    \<not> is_delimiter (inp ! p) \<longrightarrow>
      tokenize inp = Inl (ValueError (inp ! p) ln cl))"
proof (intro conjI impI)
  show "master_pattern_match inp pos = Some (WHITESPACE, lx) \<longleftrightarrow>
      lx \<noteq> [] \<and> lx = takeWhile is_space (drop pos inp)"
    by (rule master_pattern_match_whitespace_iff)
next
  show "is_space c \<longleftrightarrow>
      c \<in> {0x09..0x0D} \<union> {0x1C..0x20} \<union> {0x85, 0xA0, 0x1680} \<union> {0x2000..0x200A} \<union>
        {0x2028, 0x2029, 0x202F, 0x205F, 0x3000}"
    by (auto simp: is_space_def)
next
  assume a: "reaches inp p ln cl tokens \<and> p < length inp \<and> \<not> is_space (inp ! p) \<and>
    \<not> is_lower (inp ! p) \<and> \<not> is_digit (inp ! p) \<and> \<not> is_operator (inp ! p) \<and>
    \<not> is_delimiter (inp ! p)"
  then have n: "master_pattern_match inp p = None"
    by (intro master_pattern_match_no_class) simp_all
  from a have r: "reaches inp p ln cl tokens" and l: "p < length inp" by simp_all
  show "tokenize inp = Inl (ValueError (inp ! p) ln cl)"
    by (rule reaches_error [OF r l n])
qed

theorem whitespace_and_fatal_characters_witness:
  "master_pattern_match (str ''a ?'') 1 = Some (WHITESPACE, str '' '') \<and>
   reaches (str ''a ?'') 2 1 3 [\<lparr>type = ''IDENTIFIER'', lexeme = str ''a'', line = 1, col = 1\<rparr>] \<and>
   tokenize (str ''a ?'') = Inl (ValueError (of_char CHR ''?'') 1 3)"
proof -
  let ?a = "\<lparr>type = ''IDENTIFIER'', lexeme = str ''a'', line = 1, col = 1\<rparr>"
  have w: "str '' '' \<noteq> [] \<and> str '' '' = takeWhile is_space (drop 1 (str ''a ?''))"
    by (simp add: str_def is_space_def)
  have m: "master_pattern_match (str ''a ?'') 0 = Some (IDENTIFIER, str ''a'')"
    by (simp add: master_pattern_match_def str_def is_space_def is_lower_def)
  have ty: "token_type IDENTIFIER (str ''a'') = Inr ''IDENTIFIER''"
    by (simp add: token_type_def lexer_keywords_def str_def IDENTIFIER_def)
  have adv: "advance_position (str ''a'') 1 1 = (1, 2)"
    "advance_position (str '' '') 1 2 = (1, 3)"
    by (simp_all add: advance_position_def str_def newline_def)
  have len: "0 + length (str ''a'') = 1" "1 + length (str '' '') = 2"
    by (simp_all add: str_def)
  have "reaches (str ''a ?'') (0 + length (str ''a'')) (fst (advance_position (str ''a'') 1 1))
      (snd (advance_position (str ''a'') 1 1)) ([] @ [?a])"
    by (rule reaches.emit [OF reaches.start _ m _ ty]) (simp_all add: str_def)
  then have r1: "reaches (str ''a ?'') 1 1 2 [?a]"
    by (simp only: adv len fst_conv snd_conv append_Nil)
  from whitespace_and_fatal_characters [of "str ''a ?''" 1 "str '' ''"]
  have "master_pattern_match (str ''a ?'') 1 = Some (WHITESPACE, str '' '') \<longleftrightarrow>
    str '' '' \<noteq> [] \<and> str '' '' = takeWhile is_space (drop 1 (str ''a ?''))"
    by (rule conjunct1)
  from this w have m1: "master_pattern_match (str ''a ?'') 1 = Some (WHITESPACE, str '' '')"
    by (rule iffD2)
  have "reaches (str ''a ?'') (1 + length (str '' '')) (fst (advance_position (str '' '') 1 2))
      (snd (advance_position (str '' '') 1 2)) [?a]"
    by (rule reaches.skip [OF r1 _ m1]) (simp add: str_def)
  then have r: "reaches (str ''a ?'') 2 1 3 [?a]"
    by (simp only: adv len fst_conv snd_conv)
  have c: "2 < length (str ''a ?'') \<and> \<not> is_space (str ''a ?'' ! 2) \<and>
    \<not> is_lower (str ''a ?'' ! 2) \<and> \<not> is_digit (str ''a ?'' ! 2) \<and>
    \<not> is_operator (str ''a ?'' ! 2) \<and> \<not> is_delimiter (str ''a ?'' ! 2)"
    by (simp add: char_class_defs)
  have q: "str ''a ?'' ! 2 = of_char CHR ''?''" by (simp add: str_def)
  from whitespace_and_fatal_characters
    [of "str ''a ?''" 1 "str '' ''" 0 2 1 3 "[?a]"] r c
  have "tokenize (str ''a ?'') = Inl (ValueError (str ''a ?'' ! 2) 1 3)"
    by simp
  with m1 r q show ?thesis by simp
qed

text \<open>
  C4 as the claim states it fails: a carriage return (code point 13) is none of space, tab
  and newline, and is in none of the four token classes, yet at the cursor it is matched
  by the whitespace alternative and consumed, and \<open>tokenize\<close> returns without error.
\<close>

theorem carriage_return_is_whitespace:
  "(13::nat) \<notin> {of_char CHR '' '', 9, newline} \<and> \<not> is_lower 13 \<and> \<not> is_digit 13 \<and>
   \<not> is_operator 13 \<and> \<not> is_delimiter 13 \<and> reaches [13] 0 1 1 [] \<and>
   master_pattern_match [13] 0 = Some (''WHITESPACE'', [13]) \<and> tokenize [13] = Inr []"
  by (simp add: lexer_eval reaches.start)

text \<open>
  C8. Let \<open>tokenize\<close> succeed on a text, let the loop append a token for the match \<open>lx\<close>
  at \<open>p0\<close>, and let \<open>q\<close> lie between the end of that token and the end of the whitespace
  that follows it, so that \<open>q\<close> is in the gap between this token and the next one.
  Inserting at \<open>q\<close> any run \<open>w\<close> of spaces, tabs and newlines gives a text on which
  \<open>tokenize\<close> succeeds too, with as many tokens, the same type and lexeme at every
  index, and the very same tokens, line and column included, up to and including the
  token before the insertion point.
\<close>

theorem whitespace_insertion:
  assumes "tokenize inp = Inr toks"
    and "reaches inp p0 ln0 cl0 toks0"
    and "master_pattern_match inp p0 = Some (kind, lx)" and "kind \<noteq> WHITESPACE"
    and "q = p0 + length lx + j"
    and "j \<le> length (takeWhile is_space (drop (p0 + length lx) inp))"
    and "set w \<subseteq> {of_char CHR '' '', of_char CHR 0x09, of_char CHR ''\<newline>''}"
  shows "\<exists>toks'. tokenize (take q inp @ w @ drop q inp) = Inr toks' \<and>
    length toks' = length toks \<and>
    (\<forall>i<length toks. type (toks' ! i) = type (toks ! i) \<and>
       lexeme (toks' ! i) = lexeme (toks ! i)) \<and>
    (\<forall>i\<le>length toks0. toks' ! i = toks ! i)"
proof -
  define p where "p = p0 + length lx"
  define a where "a = take p inp"
  define b where "b = drop p inp"
  define u where "u = take j b"
  define s where "s = drop j b"
  have ne: "lx \<noteq> []" using assms(3) by (rule master_pattern_match_nonempty)
  have ple: "p \<le> length inp"
    unfolding p_def using assms(3) by (rule master_pattern_match_end)
  with ne have p0lt: "p0 < length inp" unfolding p_def by (cases lx) auto
  have inp: "inp = a @ b" by (simp add: a_def b_def)
  have la: "length a = p" using ple by (simp add: a_def)
  have b: "b = u @ s" by (simp add: u_def s_def)
  have "u = take j (takeWhile is_space b)"
  proof -
    have "take j b = take j (takeWhile is_space b @ dropWhile is_space b)" by simp
    also have "\<dots> = take j (takeWhile is_space b)"
      using assms(6) unfolding p_def [symmetric] b_def [symmetric] by (simp del: takeWhile_dropWhile_id)
    finally show ?thesis by (simp add: u_def)
  qed
  then have usp: "\<forall>c\<in>set u. is_space c"
    by (metis in_set_takeD set_takeWhileD)
  have wsp: "\<forall>c\<in>set w. is_space c"
    using assms(7) by (auto simp: is_space_def)
  have tq: "take q inp = a @ u"
    unfolding assms(5) p_def [symmetric] by (simp add: take_add a_def u_def b_def)
  have dq: "drop q inp = s"
    unfolding assms(5) p_def [symmetric] by (simp add: s_def b_def add.commute)
  obtain ty where ty: "token_type kind lx = Inr ty"
    using token_type_total [OF assms(3,4)] by blast
  define ln1 where "ln1 = fst (advance_position lx ln0 cl0)"
  define cl1 where "cl1 = snd (advance_position lx ln0 cl0)"
  define toks1 where "toks1 = toks0 @ [\<lparr>type = ty, lexeme = lx, line = ln0, col = cl0\<rparr>]"
  have r1: "reaches inp p ln1 cl1 toks1"
    unfolding p_def ln1_def cl1_def toks1_def
    by (rule reaches.emit [OF assms(2) p0lt assms(3,4) ty])
  have "tokenize inp = tokenize_loop (a @ b) (length a) ln1 cl1 toks1"
    using reaches_tokenize_loop [OF r1] by (simp only: inp [symmetric] la)
  with assms(1) have "tokenize_loop b 0 ln1 cl1 toks1 = Inr toks"
    by (simp only: tokenize_loop_append_start)
  then have run: "tokenize_loop (u @ s) 0 ln1 cl1 toks1 = Inr toks"
    by (simp only: b)
  from tokenize_loop_more_whitespace [OF run usp wsp]
  obtain toks' where run': "tokenize_loop (u @ w @ s) 0 ln1 cl1 toks1 = Inr toks'"
    and shape: "map (\<lambda>t. (type t, lexeme t)) toks' = map (\<lambda>t. (type t, lexeme t)) toks"
    by blast
  have "tokenize (a @ u @ w @ s) = Inr toks'"
  proof (cases "w = []")
    case True
    with run run' have "toks' = toks" by simp
    with assms(1) True show ?thesis by (simp add: inp b)
  next
    case False
    with usp wsp have sp: "u @ w @ s = [] \<or> is_space (hd (u @ w @ s))"
      by (cases u; cases w) auto
    have p0a: "p0 < length a" using ne la by (cases lx) (auto simp: p_def)
    have r0': "reaches (a @ u @ w @ s) p0 ln0 cl0 toks0"
      using assms(2) inp p0a by (rule reaches_change_suffix)
    have m0: "master_pattern_match (a @ b) p0 = Some (kind, lx)"
      using assms(3) by (simp add: inp)
    have m0': "master_pattern_match (a @ u @ w @ s) p0 = Some (kind, lx)"
      using m0 assms(4) _ sp by (rule master_pattern_match_token_end) (simp add: la p_def)
    have "reaches (a @ u @ w @ s) p ln1 cl1 toks1"
      unfolding p_def ln1_def cl1_def toks1_def
      by (rule reaches.emit [OF r0' _ m0' assms(4) ty]) (use p0a in simp)
    from reaches_tokenize_loop [OF this]
    have "tokenize (a @ u @ w @ s) = tokenize_loop (a @ u @ w @ s) (length a) ln1 cl1 toks1"
      by (simp only: la)
    with run' show ?thesis by (simp only: tokenize_loop_append_start)
  qed
  then have res: "tokenize (take q inp @ w @ drop q inp) = Inr toks'"
    by (simp add: tq dq)
  from shape have len: "length toks' = length toks"
    by (rule map_eq_imp_length_eq)
  have nth: "type (toks' ! i) = type (toks ! i) \<and> lexeme (toks' ! i) = lexeme (toks ! i)"
    if "i < length toks" for i
  proof -
    from that len have "map (\<lambda>t. (type t, lexeme t)) toks' ! i = (type (toks' ! i), lexeme (toks' ! i))"
      by simp
    moreover from that have "map (\<lambda>t. (type t, lexeme t)) toks ! i = (type (toks ! i), lexeme (toks ! i))"
      by simp
    ultimately show ?thesis using shape by simp
  qed
  have k: "take (length toks1) toks = toks1" "take (length toks1) toks' = toks1"
    using run run' by (auto dest: tokenize_loop_keeps_acc)
  have same: "toks' ! i = toks ! i" if "i \<le> length toks0" for i
  proof -
    from that have i: "i < length toks1" by (simp add: toks1_def)
    then have "toks ! i = take (length toks1) toks ! i" "toks' ! i = take (length toks1) toks' ! i"
      by simp_all
    with k show ?thesis by simp
  qed
  from res len nth same show ?thesis by blast
qed

theorem whitespace_insertion_witness:
  "tokenize (str ''a=1'') =
     Inr [\<lparr>type = ''IDENTIFIER'', lexeme = str ''a'', line = 1, col = 1\<rparr>,
          \<lparr>type = ''OPERATOR'', lexeme = str ''='', line = 1, col = 2\<rparr>,
          \<lparr>type = ''INTEGER'', lexeme = str ''1'', line = 1, col = 3\<rparr>] \<and>
   reaches (str ''a=1'') 0 1 1 [] \<and>
   master_pattern_match (str ''a=1'') 0 = Some (IDENTIFIER, str ''a'') \<and>
   (\<exists>toks'. tokenize (str ''a \<newline>=1'') = Inr toks' \<and> length toks' = 3 \<and>
      type (toks' ! 1) = ''OPERATOR'' \<and> lexeme (toks' ! 1) = str ''='' \<and>
      toks' ! 0 = \<lparr>type = ''IDENTIFIER'', lexeme = str ''a'', line = 1, col = 1\<rparr>)"
proof -
  let ?toks = "[\<lparr>type = ''IDENTIFIER'', lexeme = str ''a'', line = 1, col = 1\<rparr>,
          \<lparr>type = ''OPERATOR'', lexeme = str ''='', line = 1, col = 2\<rparr>,
          \<lparr>type = ''INTEGER'', lexeme = str ''1'', line = 1, col = 3\<rparr>]"
  have t: "tokenize (str ''a=1'') = Inr ?toks"
    by (simp add: lexer_eval)
  have r: "reaches (str ''a=1'') 0 1 1 []" by (rule reaches.start)
  have m: "master_pattern_match (str ''a=1'') 0 = Some (IDENTIFIER, str ''a'')"
    by (simp add: master_pattern_match_def str_def is_space_def is_lower_def)
  have k: "IDENTIFIER \<noteq> WHITESPACE" by simp
  have q: "(1::nat) = 0 + length (str ''a'') + 0" by (simp add: str_def)
  have j: "0 \<le> length (takeWhile is_space (drop (0 + length (str ''a'')) (str ''a=1'')))"
    by simp
  have w: "set (str '' \<newline>'') \<subseteq>
      {of_char CHR '' '', of_char CHR 0x09, of_char CHR ''\<newline>''}"
    by (simp add: str_def)
  have e: "take 1 (str ''a=1'') @ str '' \<newline>'' @ drop 1 (str ''a=1'') = str ''a \<newline>=1''"
    by (simp add: str_def)
  from whitespace_insertion [OF t r m k q j w, unfolded e]
  obtain toks' where *: "tokenize (str ''a \<newline>=1'') = Inr toks' \<and>
    length toks' = length ?toks \<and>
    (\<forall>i<length ?toks. type (toks' ! i) = type (?toks ! i) \<and>
       lexeme (toks' ! i) = lexeme (?toks ! i)) \<and>
    (\<forall>i\<le>length ([]::Token list). toks' ! i = ?toks ! i)" ..
  from * have a1: "tokenize (str ''a \<newline>=1'') = Inr toks'"
    by (rule conjunct1)
  from * have a2: "length toks' = length ?toks"
    by (rule conjunct2 [THEN conjunct1])
  from * have a3: "\<forall>i<length ?toks. type (toks' ! i) = type (?toks ! i) \<and>
       lexeme (toks' ! i) = lexeme (?toks ! i)"
    by (rule conjunct2 [THEN conjunct2, THEN conjunct1])
  from * have a4: "\<forall>i\<le>length ([]::Token list). toks' ! i = ?toks ! i"
    by (rule conjunct2 [THEN conjunct2, THEN conjunct2])
  have "1 < length ?toks" by simp
  from a3 [rule_format, OF this]
  have b3: "type (toks' ! 1) = ''OPERATOR'' \<and> lexeme (toks' ! 1) = str ''=''"
    by simp
  have "0 \<le> length ([]::Token list)" by simp
  from a4 [rule_format, OF this]
  have b4: "toks' ! 0 = \<lparr>type = ''IDENTIFIER'', lexeme = str ''a'', line = 1, col = 1\<rparr>"
    by simp
  from a2 have b2: "length toks' = 3" by simp
  from a1 b2 b3 b4
  have "tokenize (str ''a \<newline>=1'') = Inr toks' \<and> length toks' = 3 \<and>
      type (toks' ! 1) = ''OPERATOR'' \<and> lexeme (toks' ! 1) = str ''='' \<and>
      toks' ! 0 = \<lparr>type = ''IDENTIFIER'', lexeme = str ''a'', line = 1, col = 1\<rparr>"
    by (intro conjI) (erule conjunct1 conjunct2 | assumption)+
  then have "\<exists>toks'. tokenize (str ''a \<newline>=1'') = Inr toks' \<and> length toks' = 3 \<and>
      type (toks' ! 1) = ''OPERATOR'' \<and> lexeme (toks' ! 1) = str ''='' \<and>
      toks' ! 0 = \<lparr>type = ''IDENTIFIER'', lexeme = str ''a'', line = 1, col = 1\<rparr>"
    by (rule exI [of "\<lambda>x. tokenize (str ''a \<newline>=1'') = Inr x \<and> length x = 3 \<and>
      type (x ! 1) = ''OPERATOR'' \<and> lexeme (x ! 1) = str ''='' \<and>
      x ! 0 = \<lparr>type = ''IDENTIFIER'', lexeme = str ''a'', line = 1, col = 1\<rparr>" toks'])
  with t r m show ?thesis by (intro conjI) assumption+
qed

end
